theory Spec2Isabelle
  imports Complex_Main "HOL-Library.Word" "HOL-Library.Sublist"
begin

section \<open>Watermark geometry\<close>

text \<open>
  The two fixed watermark layouts and the rectangle derived from them
  (\<^verbatim>\<open>detectWatermarkConfig\<close>, \<^verbatim>\<open>calculateWatermarkPosition\<close> in \<^verbatim>\<open>app.js\<close>).
  Image dimensions are JavaScript numbers holding integers; the subtraction in
  the position may go below zero, so they are modelled as \<^typ>\<open>int\<close>.
\<close>

record WatermarkConfig =
  logoSize :: int
  marginRight :: int
  marginBottom :: int

definition detectWatermarkConfig :: "int \<Rightarrow> int \<Rightarrow> WatermarkConfig" where
  "detectWatermarkConfig imageWidth imageHeight =
     (if imageWidth > 1024 \<and> imageHeight > 1024
      then \<lparr>logoSize = 96, marginRight = 64, marginBottom = 64\<rparr>
      else \<lparr>logoSize = 48, marginRight = 32, marginBottom = 32\<rparr>)"

record WatermarkRect =
  pos_x :: int
  pos_y :: int
  pos_width :: int
  pos_height :: int

definition calculateWatermarkPosition :: "int \<Rightarrow> int \<Rightarrow> WatermarkConfig \<Rightarrow> WatermarkRect" where
  "calculateWatermarkPosition imageWidth imageHeight config =
     \<lparr>pos_x = imageWidth - marginRight config - logoSize config,
      pos_y = imageHeight - marginBottom config - logoSize config,
      pos_width = logoSize config,
      pos_height = logoSize config\<rparr>"

section \<open>Reverse alpha blending\<close>

text \<open>
  \<^verbatim>\<open>imageData.data\<close> is a \<^verbatim>\<open>Uint8ClampedArray\<close>: a list of bytes, four per pixel,
  row after row. The alpha map is a \<^verbatim>\<open>Float32Array\<close>; its entries and the
  arithmetic on them are modelled in exact real arithmetic (the rounding of
  IEEE doubles is not modelled). The one non-number a read can produce is
  \<^verbatim>\<open>undefined\<close>, for an index outside the array; it becomes \<^verbatim>\<open>NaN\<close> in
  arithmetic, written \<open>None\<close> here.
\<close>

type_synonym byte = "8 word"

record ImageData =
  img_width :: int
  img_height :: int
  img_data :: "byte list"

definition ALPHA_THRESHOLD :: real where
  "ALPHA_THRESHOLD = 2 / 1000"

definition MAX_ALPHA :: real where
  "MAX_ALPHA = 99 / 100"

definition LOGO_VALUE :: real where
  "LOGO_VALUE = 255"

text \<open>Reading a typed array outside its range gives \<^verbatim>\<open>undefined\<close>; writing there does nothing.\<close>

definition typedGet :: "'a list \<Rightarrow> int \<Rightarrow> 'a option" where
  "typedGet xs i = (if 0 \<le> i \<and> i < int (length xs) then Some (xs ! nat i) else None)"

definition typedSet :: "'a list \<Rightarrow> int \<Rightarrow> 'a \<Rightarrow> 'a list" where
  "typedSet xs i v = (if 0 \<le> i \<and> i < int (length xs) then xs[nat i := v] else xs)"

text \<open>
  The expression of the inner loop:
  \<^verbatim>\<open>Math.max(0, Math.min(255, Math.round((watermarked - alpha * LOGO_VALUE) / oneMinusAlpha)))\<close>.
  \<^verbatim>\<open>Math.round\<close> rounds to the nearest integer, a tie towards plus infinity, which is
  \<^const>\<open>round\<close>.
\<close>

definition reverseBlend :: "real \<Rightarrow> real \<Rightarrow> int" where
  "reverseBlend alpha watermarked =
     (let oneMinusAlpha = 1 - alpha;
          original = (watermarked - alpha * LOGO_VALUE) / oneMinusAlpha
      in max 0 (min 255 (round original)))"

text \<open>
  One pass of the loop over \<^verbatim>\<open>c\<close>. A read outside the buffer gives \<^verbatim>\<open>undefined\<close>, the
  arithmetic gives \<^verbatim>\<open>NaN\<close> and the write, at the same index, is ignored. With \<^verbatim>\<open>NaN\<close>
  for alpha the value written is \<^verbatim>\<open>NaN\<close>, which a \<^verbatim>\<open>Uint8ClampedArray\<close> stores as 0.
\<close>

definition storedValue :: "real option \<Rightarrow> byte \<Rightarrow> byte" where
  "storedValue alpha watermarked =
     (case alpha of
        None \<Rightarrow> 0
      | Some a \<Rightarrow> of_int (reverseBlend a (real (unat watermarked))))"

definition channelStep :: "real option \<Rightarrow> int \<Rightarrow> byte list \<Rightarrow> byte list" where
  "channelStep alpha i d =
     (case typedGet d i of
        None \<Rightarrow> d
      | Some watermarked \<Rightarrow> typedSet d i (storedValue alpha watermarked))"

text \<open>
  The body of the loop over \<^verbatim>\<open>col\<close>. For \<^verbatim>\<open>undefined\<close> read from the alpha map the
  comparison with the threshold is false and \<^verbatim>\<open>Math.min\<close> gives \<^verbatim>\<open>NaN\<close>.
\<close>

definition pixelStep :: "int \<Rightarrow> real list \<Rightarrow> WatermarkRect \<Rightarrow> int \<Rightarrow> int \<Rightarrow> byte list \<Rightarrow> byte list" where
  "pixelStep imageWidth alphaMap position row col d =
     (let imgIdx = ((pos_y position + row) * imageWidth + (pos_x position + col)) * 4;
          alphaIdx = row * pos_width position + col
      in case typedGet alphaMap alphaIdx of
           None \<Rightarrow> fold (\<lambda>c. channelStep None (imgIdx + c)) [0, 1, 2] d
         | Some alpha \<Rightarrow>
             if alpha < ALPHA_THRESHOLD then d
             else fold (\<lambda>c. channelStep (Some (min alpha MAX_ALPHA)) (imgIdx + c)) [0, 1, 2] d)"

definition removeWatermarkLoop :: "int \<Rightarrow> real list \<Rightarrow> WatermarkRect \<Rightarrow> byte list \<Rightarrow> byte list" where
  "removeWatermarkLoop imageWidth alphaMap position d =
     fold (\<lambda>row. fold (\<lambda>col. pixelStep imageWidth alphaMap position (int row) (int col))
                     [0..<nat (pos_width position)])
          [0..<nat (pos_height position)] d"

datatype jsError = TypeError | RangeError

text \<open>
  \<^verbatim>\<open>removeWatermark(imageData, alphaMap, position)\<close>. The alpha map is one of the
  globals \<^verbatim>\<open>alpha48\<close>, \<^verbatim>\<open>alpha96\<close>, which are \<^verbatim>\<open>null\<close> until the reference images are
  loaded: indexing \<^verbatim>\<open>null\<close> throws in the first pass of the loop body, before any
  write. The function mutates its argument; the model returns the new raster.
\<close>

definition removeWatermark :: "ImageData \<Rightarrow> real list option \<Rightarrow> WatermarkRect \<Rightarrow> jsError + ImageData" where
  "removeWatermark imageData alphaMap position =
     (case alphaMap of
        None \<Rightarrow>
          if 0 < pos_height position \<and> 0 < pos_width position then Inl TypeError
          else Inr imageData
      | Some am \<Rightarrow>
          Inr (imageData\<lparr>img_data :=
                 removeWatermarkLoop (img_width imageData) am position (img_data imageData)\<rparr>))"

text \<open>The rectangle lies within the raster: every pixel of it is a pixel of the image.\<close>

definition rectInBounds :: "ImageData \<Rightarrow> WatermarkRect \<Rightarrow> bool" where
  "rectInBounds imageData position =
     (0 \<le> pos_x position \<and> 0 \<le> pos_y position \<and>
      0 \<le> pos_width position \<and> 0 \<le> pos_height position \<and>
      pos_x position + pos_width position \<le> img_width imageData \<and>
      pos_y position + pos_height position \<le> img_height imageData)"

text \<open>Channel \<open>c\<close> (0 to 3 for R, G, B, A) of the pixel in column \<open>px\<close> of row \<open>py\<close>.\<close>

definition channelIndex :: "int \<Rightarrow> int \<Rightarrow> int \<Rightarrow> int \<Rightarrow> nat" where
  "channelIndex imageWidth px py c = nat ((py * imageWidth + px) * 4 + c)"

text \<open>
  A transformation of the buffer acts bytewise when it keeps the length and the new
  byte at each index is a function of the old byte at that index.
\<close>

definition bytewise :: "(byte list \<Rightarrow> byte list) \<Rightarrow> (nat \<Rightarrow> byte \<Rightarrow> byte) \<Rightarrow> bool" where
  "bytewise F g = (\<forall>d. length (F d) = length d \<and> (\<forall>j < length d. F d ! j = g j (d ! j)))"

text \<open>What one pass of the loop over \<^verbatim>\<open>col\<close> does to the byte at index \<open>j\<close>.\<close>

definition pixelByte :: "int \<Rightarrow> real list \<Rightarrow> WatermarkRect \<Rightarrow> int \<Rightarrow> int \<Rightarrow> nat \<Rightarrow> byte \<Rightarrow> byte" where
  "pixelByte imageWidth alphaMap position row col j v =
     (let imgIdx = ((pos_y position + row) * imageWidth + (pos_x position + col)) * 4
      in if imgIdx \<le> int j \<and> int j \<le> imgIdx + 2 then
           (case typedGet alphaMap (row * pos_width position + col) of
              None \<Rightarrow> 0
            | Some alpha \<Rightarrow>
                if alpha < ALPHA_THRESHOLD then v
                else storedValue (Some (min alpha MAX_ALPHA)) v)
         else v)"

section \<open>Encoder\<close>

text \<open>
  \<^verbatim>\<open>getPngColorCountForQuality\<close>: 0 stands for "do not quantize". The quality is a number
  between 0 and 1 (modelled as a real).
\<close>

definition getPngColorCountForQuality :: "real \<Rightarrow> nat" where
  "getPngColorCountForQuality q =
     (if q \<ge> 999 / 1000 then 0
      else if q \<ge> 85 / 100 then 256
      else 192)"

datatype blob = Blob "byte list" string

text \<open>
  What \<^verbatim>\<open>UPNG.encode\<close> can do when it is called: throw, return a falsy value, or return
  the bytes of a PNG file.
\<close>

datatype upngResult = UpngThrows | UpngNull | UpngBuffer "byte list"

text \<open>
  The browser and the page around the encoder. \<^verbatim>\<open>canvas.toBlob(callback, type, quality)\<close>
  calls back with a blob or with \<^verbatim>\<open>null\<close>; the canvas holds the corrected raster.
  \<^verbatim>\<open>window.UPNG.encode\<close> is there or not (\<open>None\<close>: the library did not load, or
  \<^verbatim>\<open>encode\<close> is not a function). Drawing the canvas over a white background is the
  browser's compositing.
\<close>

record encoderEnv =
  canvasToBlob :: "ImageData \<Rightarrow> string \<Rightarrow> real option \<Rightarrow> blob option"
  upngEncode :: "(byte list \<Rightarrow> int \<Rightarrow> int \<Rightarrow> nat \<Rightarrow> upngResult) option"
  drawOnWhite :: "ImageData \<Rightarrow> ImageData"

text \<open>The messages \<^verbatim>\<open>setStatus\<close> is called with, each with its type.\<close>

datatype statusMsg =
    MsgCleared
  | MsgNoImages
  | MsgTooMany
  | MsgAlphaMapsFailed
  | MsgSomeFailed
  | MsgUpngNeeded
  | MsgPngLibraryMissing
  | MsgPngCompressionFailed

datatype statusType = InfoStatus | ErrorStatus

text \<open>
  \<^verbatim>\<open>exportResultBlob({ canvas, imageData, mime, quality })\<close>. The result is what the
  returned promise resolves to (a blob or \<^verbatim>\<open>null\<close>) and the calls of \<^verbatim>\<open>setStatus\<close> made on
  the way. \<^verbatim>\<open>quality\<close> may be \<^verbatim>\<open>undefined\<close> (\<open>None\<close>), read as 1. \<^verbatim>\<open>rgba.set(imageData.data)\<close>
  throws a \<^verbatim>\<open>RangeError\<close>, outside the \<^verbatim>\<open>try\<close>, when the source is longer than the
  \<open>w * h * 4\<close> bytes of the target; a shorter source leaves zeros at the end.
\<close>

definition exportResultBlob ::
  "encoderEnv \<Rightarrow> ImageData \<Rightarrow> ImageData \<Rightarrow> string \<Rightarrow> real option
     \<Rightarrow> jsError + (blob option \<times> (statusMsg \<times> statusType) list)" where
  "exportResultBlob env canvas imageData mime quality =
     (if mime = ''image/jpeg'' \<or> mime = ''image/webp'' then
        Inr (canvasToBlob env (drawOnWhite env canvas) mime quality, [])
      else if mime = ''image/png'' then
        (let q = max 0 (min 1 (case quality of None \<Rightarrow> 1 | Some v \<Rightarrow> v));
             colors = getPngColorCountForQuality q
         in if colors = 0 then Inr (canvasToBlob env canvas ''image/png'' None, [])
            else
              (case upngEncode env of
                 None \<Rightarrow>
                   Inr (canvasToBlob env canvas ''image/png'' None,
                        [(MsgPngLibraryMissing, InfoStatus)])
               | Some encode \<Rightarrow>
                   (let w = img_width canvas;
                        h = img_height canvas;
                        size = nat (w * h * 4)
                    in if length (img_data imageData) > size then Inl RangeError
                       else
                         (let rgba = img_data imageData
                                       @ replicate (size - length (img_data imageData)) 0
                          in case encode rgba w h colors of
                               UpngBuffer pngArrayBuffer \<Rightarrow>
                                 Inr (Some (Blob pngArrayBuffer ''image/png''), [])
                             | _ \<Rightarrow>
                                 Inr (canvasToBlob env canvas ''image/png'' None,
                                      [(MsgPngCompressionFailed, InfoStatus)])))))
      else Inr (canvasToBlob env canvas ''image/png'' None, []))"

section \<open>Batch scheduler\<close>

subsection \<open>Files and batch items\<close>

record jsFile =
  file_name :: string
  file_type :: string
  file_size :: nat

text \<open>
  \<^verbatim>\<open>/image\/(png|jpeg|webp)/.test(file.type)\<close>: the pattern is not anchored, so the test is
  whether the type contains one of the three names. (\<^verbatim>\<open>!!file\<close> holds of every
  \<^verbatim>\<open>File\<close> object.)
\<close>

fun containsString :: "string \<Rightarrow> string \<Rightarrow> bool" where
  "containsString p [] = (p = [])"
| "containsString p (c # cs) = (prefix p (c # cs) \<or> containsString p cs)"

definition isSupportedImageFile :: "jsFile \<Rightarrow> bool" where
  "isSupportedImageFile file =
     (containsString ''image/png'' (file_type file)
      \<or> containsString ''image/jpeg'' (file_type file)
      \<or> containsString ''image/webp'' (file_type file))"

text \<open>\<^verbatim>\<open>item.status\<close> is one of \<^verbatim>\<open>"queued"\<close>, \<^verbatim>\<open>"completed"\<close>, \<^verbatim>\<open>"error"\<close>.\<close>

datatype itemStatus = StatusQueued | StatusCompleted | StatusError

text \<open>
  A batch item is a JavaScript object, mutated through every reference to it: items live
  in a store and are named by their address there. A blob URL is named by the number of
  the \<^verbatim>\<open>URL.createObjectURL\<close> call that issued it.
\<close>

record batchItem =
  item_file :: jsFile
  item_status :: itemStatus
  originalImg :: "ImageData option"
  resultBlob :: "blob option"
  resultUrl :: "nat option"

definition newItem :: "jsFile \<Rightarrow> batchItem" where
  "newItem file =
     \<lparr>item_file = file, item_status = StatusQueued, originalImg = None,
      resultBlob = None, resultUrl = None\<rparr>"

subsection \<open>The page state\<close>

text \<open>
  Where a worker (one call of the async function \<^verbatim>\<open>worker\<close>) is suspended: in
  \<^verbatim>\<open>processOneItem\<close> at \<^verbatim>\<open>await fileToImage(item.file)\<close> or at
  \<^verbatim>\<open>await exportResultBlob(...)\<close>, holding the item; at its own
  \<^verbatim>\<open>await processOneItem(item)\<close> after that call has finished; or returned.
\<close>

datatype workerPc = AwaitDecode nat | AwaitEncode nat | ItemDone | Exited

text \<open>
  The globals \<^verbatim>\<open>batchItems\<close>, \<^verbatim>\<open>processedCount\<close>, \<^verbatim>\<open>failedCount\<close>; the store of items;
  one \<^verbatim>\<open>cursor\<close> variable for each launch of workers (it is local to the call of
  \<^verbatim>\<open>handleFiles\<close> or \<^verbatim>\<open>reprocessCurrentBatch\<close> and shared by its two workers); the
  workers, each with the number of its launch; the calls of \<^verbatim>\<open>handleFiles\<close> suspended at
  \<^verbatim>\<open>await ensureAlphaMapsReady()\<close>. The remaining fields record what the page has done:
  the blob URLs revoked, the calls of \<^verbatim>\<open>setStatus\<close>, the calls of \<^verbatim>\<open>processOneItem\<close>
  (launch and item) and the calls of \<^verbatim>\<open>fileToImage\<close> (item), each in order.
\<close>

record pageState =
  itemHeap :: "batchItem list"
  batchItems :: "nat list"
  processedCount :: nat
  failedCount :: nat
  cursors :: "nat list"
  workers :: "(nat \<times> workerPc) list"
  pendingAlpha :: nat
  nextUrl :: nat
  revoked :: "nat list"
  statusLog :: "(statusMsg \<times> statusType) list"
  started :: "(nat \<times> nat) list"
  decodeCalls :: "nat list"

definition setStatus :: "statusMsg \<Rightarrow> statusType \<Rightarrow> pageState \<Rightarrow> pageState" where
  "setStatus m t s = s\<lparr>statusLog := statusLog s @ [(m, t)]\<rparr>"

definition updateItem :: "nat \<Rightarrow> (batchItem \<Rightarrow> batchItem) \<Rightarrow> pageState \<Rightarrow> pageState" where
  "updateItem a f s = s\<lparr>itemHeap := (itemHeap s)[a := f (itemHeap s ! a)]\<rparr>"

text \<open>
  \<^verbatim>\<open>if (item.resultUrl && item.resultUrl.startsWith("blob:")) URL.revokeObjectURL(item.resultUrl)\<close>;
  every URL stored in an item comes from \<^verbatim>\<open>URL.createObjectURL\<close> and starts with \<^verbatim>\<open>blob:\<close>.
\<close>

definition revokeResultUrl :: "nat \<Rightarrow> pageState \<Rightarrow> pageState" where
  "revokeResultUrl a s =
     (case resultUrl (itemHeap s ! a) of
        None \<Rightarrow> s
      | Some u \<Rightarrow> s\<lparr>revoked := revoked s @ [u]\<rparr>)"

definition resetUI :: "pageState \<Rightarrow> pageState" where
  "resetUI s =
     (let s1 = fold revokeResultUrl (batchItems s) s;
          s2 = setStatus MsgCleared InfoStatus s1
      in s2\<lparr>batchItems := [], processedCount := 0, failedCount := 0\<rparr>)"

subsection \<open>One item\<close>

text \<open>
  The \<^verbatim>\<open>catch\<close> block of \<^verbatim>\<open>processOneItem\<close>. Whatever was thrown, the item is marked,
  the counter goes up and the global hint is set; the call then returns normally.
\<close>

definition failItem :: "nat \<Rightarrow> pageState \<Rightarrow> pageState" where
  "failItem a s =
     setStatus MsgSomeFailed ErrorStatus
       ((updateItem a (\<lambda>it. it\<lparr>item_status := StatusError\<rparr>) s)
          \<lparr>failedCount := failedCount s + 1\<rparr>)"

text \<open>
  From the image to \<^verbatim>\<open>await exportResultBlob(...)\<close>: drawing on a canvas, reading its
  pixels, \<^verbatim>\<open>removeWatermark\<close> and the start of the export run without suspension. They
  throw when the browser refuses the pixels or when the alpha map is still \<^verbatim>\<open>null\<close>;
  whether they do is given from outside (\<open>pixelsOk\<close>). What the export throws is
  a rejection of its promise, seen at the \<^verbatim>\<open>await\<close>.
\<close>

definition afterImage :: "bool \<Rightarrow> nat \<Rightarrow> pageState \<Rightarrow> workerPc \<times> pageState" where
  "afterImage pixelsOk a s =
     (if pixelsOk then (AwaitEncode a, s) else (ItemDone, failItem a s))"

text \<open>
  \<^verbatim>\<open>processOneItem(item)\<close> up to its first suspension:
  \<^verbatim>\<open>const img = item.originalImg || (await fileToImage(item.file))\<close>.
\<close>

definition processOneItemStart :: "bool \<Rightarrow> nat \<Rightarrow> pageState \<Rightarrow> workerPc \<times> pageState" where
  "processOneItemStart pixelsOk a s =
     (case originalImg (itemHeap s ! a) of
        None \<Rightarrow> (AwaitDecode a, s\<lparr>decodeCalls := decodeCalls s @ [a]\<rparr>)
      | Some img \<Rightarrow> afterImage pixelsOk a s)"

subsection \<open>Workers\<close>

text \<open>
  One turn of \<^verbatim>\<open>while (cursor < batchItems.length) { const item = batchItems[cursor++]; await processOneItem(item); }\<close>
  for a worker of launch \<open>r\<close>: the test, the increment and the call run without
  suspension. \<^verbatim>\<open>batchItems\<close> is the global, read afresh at every turn.
\<close>

definition workerLoop :: "bool \<Rightarrow> nat \<Rightarrow> pageState \<Rightarrow> workerPc \<times> pageState" where
  "workerLoop pixelsOk r s =
     (if cursors s ! r < length (batchItems s) then
        (let i = cursors s ! r;
             a = batchItems s ! i;
             s1 = s\<lparr>cursors := (cursors s)[r := i + 1], started := started s @ [(r, a)]\<rparr>
         in processOneItemStart pixelsOk a s1)
      else (Exited, s))"

definition setWorker :: "nat \<Rightarrow> nat \<Rightarrow> workerPc \<Rightarrow> pageState \<Rightarrow> pageState" where
  "setWorker w r pc s = s\<lparr>workers := (workers s)[w := (r, pc)]\<rparr>"

text \<open>
  \<^verbatim>\<open>let cursor = 0; ... Promise.all(Array.from({ length: concurrency }, worker))\<close> with
  \<^verbatim>\<open>concurrency = 2\<close>: a new cursor, and two calls of \<^verbatim>\<open>worker\<close>, each running to its
  first suspension before the next is called.
\<close>

definition launchWorkers :: "bool \<times> bool \<Rightarrow> pageState \<Rightarrow> pageState" where
  "launchWorkers pixelsOk s =
     (let r = length (cursors s);
          s0 = s\<lparr>cursors := cursors s @ [0]\<rparr>;
          (pc1, s1) = workerLoop (fst pixelsOk) r s0;
          s2 = s1\<lparr>workers := workers s1 @ [(r, pc1)]\<rparr>;
          (pc2, s3) = workerLoop (snd pixelsOk) r s2
      in s3\<lparr>workers := workers s3 @ [(r, pc2)]\<rparr>)"

subsection \<open>Entry points\<close>

text \<open>\<^verbatim>\<open>handleFiles(files)\<close> up to \<^verbatim>\<open>await ensureAlphaMapsReady()\<close>.\<close>

definition handleFiles :: "jsFile list \<Rightarrow> pageState \<Rightarrow> pageState" where
  "handleFiles files s =
     (let onlyImages = filter isSupportedImageFile files
      in if length onlyImages = 0 then setStatus MsgNoImages ErrorStatus s
         else if length onlyImages > 10 then setStatus MsgTooMany ErrorStatus s
         else
           (let s1 = resetUI s;
                base = length (itemHeap s1);
                s2 = s1\<lparr>itemHeap := itemHeap s1 @ map newItem onlyImages,
                        batchItems := map (\<lambda>idx. base + idx) [0..<length onlyImages]\<rparr>;
                s3 = setStatus MsgCleared InfoStatus s2;
                s4 = s3\<lparr>processedCount := 0, failedCount := 0\<rparr>
            in s4\<lparr>pendingAlpha := pendingAlpha s4 + 1\<rparr>))"

text \<open>
  The rest of \<^verbatim>\<open>handleFiles\<close>, once \<^verbatim>\<open>ensureAlphaMapsReady()\<close> has settled: on failure
  the hint (the cards show "Failed", \<^verbatim>\<open>item.status\<close> is not touched), on success the
  launch, over whatever \<^verbatim>\<open>batchItems\<close> holds by then.
\<close>

definition alphaMapsSettled :: "bool \<Rightarrow> bool \<times> bool \<Rightarrow> pageState \<Rightarrow> pageState option" where
  "alphaMapsSettled ok pixelsOk s =
     (if pendingAlpha s = 0 then None
      else
        (let s1 = s\<lparr>pendingAlpha := pendingAlpha s - 1\<rparr>
         in Some (if ok then launchWorkers pixelsOk s1
                  else setStatus MsgAlphaMapsFailed ErrorStatus s1)))"

text \<open>The body of \<^verbatim>\<open>batchItems.forEach\<close> in \<^verbatim>\<open>reprocessCurrentBatch\<close>.\<close>

definition reprocessItem :: "nat \<Rightarrow> pageState \<Rightarrow> pageState" where
  "reprocessItem a s =
     (let s1 = updateItem a (\<lambda>it. it\<lparr>item_status := StatusQueued\<rparr>) s;
          s2 = revokeResultUrl a s1
      in updateItem a (\<lambda>it. it\<lparr>resultUrl := None, resultBlob := None\<rparr>) s2)"

definition reprocessReset :: "pageState \<Rightarrow> pageState" where
  "reprocessReset s =
     fold reprocessItem (batchItems s) (s\<lparr>processedCount := 0, failedCount := 0\<rparr>)"

text \<open>
  \<^verbatim>\<open>reprocessCurrentBatch()\<close>, the handler of a change of quality or format. \<open>upngOk\<close> is
  false when the output is PNG below quality 1 and \<^verbatim>\<open>UPNG.encode\<close> is missing.
\<close>

definition reprocessCurrentBatch :: "bool \<Rightarrow> bool \<times> bool \<Rightarrow> pageState \<Rightarrow> pageState" where
  "reprocessCurrentBatch upngOk pixelsOk s =
     (if length (batchItems s) = 0 then s
      else if \<not> upngOk then setStatus MsgUpngNeeded ErrorStatus s
      else launchWorkers pixelsOk (reprocessReset s))"

subsection \<open>Resumptions\<close>

text \<open>\<^verbatim>\<open>fileToImage\<close> settles for worker \<open>w\<close>: rejected (\<open>None\<close>) or with the image.\<close>

definition decoded :: "nat \<Rightarrow> ImageData option \<Rightarrow> bool \<Rightarrow> pageState \<Rightarrow> pageState option" where
  "decoded w outcome pixelsOk s =
     (if w < length (workers s) then
        (case workers s ! w of
           (r, AwaitDecode a) \<Rightarrow>
             (case outcome of
                None \<Rightarrow> Some (setWorker w r ItemDone (failItem a s))
              | Some img \<Rightarrow>
                  (let s1 = updateItem a (\<lambda>it. it\<lparr>originalImg := Some img\<rparr>) s;
                       (pc, s2) = afterImage pixelsOk a s1
                   in Some (setWorker w r pc s2)))
         | _ \<Rightarrow> None)
      else None)"

text \<open>
  \<^verbatim>\<open>exportResultBlob\<close> settles for worker \<open>w\<close>: rejected or with \<^verbatim>\<open>null\<close> (\<open>None\<close>; a
  \<^verbatim>\<open>null\<close> blob is thrown as "Failed to export result image."), or with a blob.
\<close>

definition encoded :: "nat \<Rightarrow> blob option \<Rightarrow> pageState \<Rightarrow> pageState option" where
  "encoded w outcome s =
     (if w < length (workers s) then
        (case workers s ! w of
           (r, AwaitEncode a) \<Rightarrow>
             (case outcome of
                None \<Rightarrow> Some (setWorker w r ItemDone (failItem a s))
              | Some b \<Rightarrow>
                  (let s1 = revokeResultUrl a s;
                       s2 = updateItem a
                              (\<lambda>it. it\<lparr>resultBlob := Some b, resultUrl := Some (nextUrl s1)\<rparr>) s1;
                       s3 = s2\<lparr>nextUrl := nextUrl s2 + 1\<rparr>;
                       s4 = updateItem a (\<lambda>it. it\<lparr>item_status := StatusCompleted\<rparr>) s3;
                       s5 = s4\<lparr>processedCount := processedCount s4 + 1\<rparr>
                   in Some (setWorker w r ItemDone s5)))
         | _ \<Rightarrow> None)
      else None)"

text \<open>Worker \<open>w\<close> resumes after its \<^verbatim>\<open>await processOneItem(item)\<close>: the next turn of its loop.\<close>

definition resumed :: "nat \<Rightarrow> bool \<Rightarrow> pageState \<Rightarrow> pageState option" where
  "resumed w pixelsOk s =
     (if w < length (workers s) then
        (case workers s ! w of
           (r, ItemDone) \<Rightarrow>
             (let (pc, s1) = workerLoop pixelsOk r s in Some (setWorker w r pc s1))
         | _ \<Rightarrow> None)
      else None)"

subsection \<open>Events and executions\<close>

text \<open>
  What the event loop can run next: a handler of the user's (files chosen, quality or
  format changed, reset clicked) or the continuation of a settled promise. An execution
  is a list of events; every interleaving of the suspended computations is one.
\<close>

datatype event =
    EvHandleFiles "jsFile list"
  | EvAlphaMaps bool "bool \<times> bool"
  | EvReprocess bool "bool \<times> bool"
  | EvReset
  | EvDecoded nat "ImageData option" bool
  | EvEncoded nat "blob option"
  | EvResumed nat bool

fun step :: "event \<Rightarrow> pageState \<Rightarrow> pageState option" where
  "step (EvHandleFiles files) s = Some (handleFiles files s)"
| "step (EvAlphaMaps ok pixelsOk) s = alphaMapsSettled ok pixelsOk s"
| "step (EvReprocess upngOk pixelsOk) s = Some (reprocessCurrentBatch upngOk pixelsOk s)"
| "step EvReset s = Some (resetUI s)"
| "step (EvDecoded w outcome pixelsOk) s = decoded w outcome pixelsOk s"
| "step (EvEncoded w outcome) s = encoded w outcome s"
| "step (EvResumed w pixelsOk) s = resumed w pixelsOk s"

fun run :: "event list \<Rightarrow> pageState \<Rightarrow> pageState option" where
  "run [] s = Some s"
| "run (e # es) s = (case step e s of None \<Rightarrow> None | Some s' \<Rightarrow> run es s')"

text \<open>The page as loaded: nothing yet, and the \<^verbatim>\<open>resetUI()\<close> at the end of the script.\<close>

definition pageLoaded :: pageState where
  "pageLoaded =
     resetUI \<lparr>itemHeap = [], batchItems = [], processedCount = 0, failedCount = 0,
              cursors = [], workers = [], pendingAlpha = 0, nextUrl = 0, revoked = [],
              statusLog = [], started = [], decodeCalls = []\<rparr>"

fun workerEvent :: "event \<Rightarrow> bool" where
  "workerEvent (EvDecoded w outcome pixelsOk) = True"
| "workerEvent (EvEncoded w outcome) = True"
| "workerEvent (EvResumed w pixelsOk) = True"
| "workerEvent e = False"

text \<open>No worker is in flight.\<close>

definition quiescent :: "pageState \<Rightarrow> bool" where
  "quiescent s = list_all (\<lambda>w. snd w = Exited) (workers s)"

fun holding :: "workerPc \<Rightarrow> nat option" where
  "holding (AwaitDecode a) = Some a"
| "holding (AwaitEncode a) = Some a"
| "holding pc = None"

subsection \<open>Invariants\<close>

text \<open>
  Every address in use names an item of the store, the batch lists no item twice, and
  every launch number in use names a cursor.
\<close>

definition wellFormed :: "pageState \<Rightarrow> bool" where
  "wellFormed s =
     (list_all (\<lambda>a. a < length (itemHeap s)) (batchItems s)
      \<and> distinct (batchItems s)
      \<and> list_all (\<lambda>w. fst w < length (cursors s)
                       \<and> (case holding (snd w) of None \<Rightarrow> True
                           | Some a \<Rightarrow> a < length (itemHeap s))) (workers s)
      \<and> list_all (\<lambda>p. fst p < length (cursors s)) (started s))"

text \<open>The items \<^verbatim>\<open>processOneItem\<close> was called with by the workers of launch \<open>r\<close>, in order.\<close>

definition takenBy :: "nat \<Rightarrow> pageState \<Rightarrow> nat list" where
  "takenBy r s = map snd (filter (\<lambda>p. fst p = r) (started s))"

text \<open>The number of workers suspended inside \<^verbatim>\<open>processOneItem\<close>.\<close>

definition inFlight :: "pageState \<Rightarrow> nat" where
  "inFlight s = length (filter (\<lambda>w. holding (snd w) \<noteq> None) (workers s))"

text \<open>The number of times the hint "Some images failed" was raised.\<close>

definition failureHints :: "pageState \<Rightarrow> nat" where
  "failureHints s = length (filter (\<lambda>m. m = (MsgSomeFailed, ErrorStatus)) (statusLog s))"

text \<open>
  Launch \<open>r\<close> is the only one with workers still running, and its cursor, its calls of
  \<^verbatim>\<open>processOneItem\<close>, the items and the counters agree: the items before the cursor
  have been taken, each once and in order; each of them is held by a worker or is
  completed or failed; the two counters and the workers inside \<^verbatim>\<open>processOneItem\<close> add up
  to the cursor; a worker of the launch has returned only with the cursor at the end.
\<close>

definition singleRun :: "nat \<Rightarrow> pageState \<Rightarrow> bool" where
  "singleRun r s =
     (wellFormed s
      \<and> r < length (cursors s)
      \<and> cursors s ! r \<le> length (batchItems s)
      \<and> takenBy r s = take (cursors s ! r) (batchItems s)
      \<and> list_all (\<lambda>w. snd w \<noteq> Exited \<longrightarrow> fst w = r) (workers s)
      \<and> list_all (\<lambda>w. fst w = r \<and> snd w = Exited \<longrightarrow> cursors s ! r = length (batchItems s))
           (workers s)
      \<and> list_all (\<lambda>a. list_ex (\<lambda>w. holding (snd w) = Some a) (workers s)
                       \<or> item_status (itemHeap s ! a) = StatusCompleted
                       \<or> item_status (itemHeap s ! a) = StatusError)
           (take (cursors s ! r) (batchItems s))
      \<and> processedCount s + failedCount s + inFlight s = cursors s ! r)"

text \<open>
  A bound on the resumptions still to come in launch \<open>r\<close>: three for each item not yet
  taken (its decoding, its export and the return to the loop), and for each worker those
  left from where it is suspended.
\<close>

fun pcWeight :: "workerPc \<Rightarrow> nat" where
  "pcWeight (AwaitDecode a) = 3"
| "pcWeight (AwaitEncode a) = 2"
| "pcWeight ItemDone = 1"
| "pcWeight Exited = 0"

definition workLeft :: "nat \<Rightarrow> pageState \<Rightarrow> nat" where
  "workLeft r s =
     3 * (length (batchItems s) - cursors s ! r)
     + sum_list (map (\<lambda>w. pcWeight (snd w)) (workers s))"


section \<open>Geometry resolver: properties\<close>

text \<open>
  C3. The resolver gives the 96/64/64 layout exactly when both dimensions are
  strictly above 1024, and the 48/32/32 layout in every other case, among them
  1024 by 1024 and 1025 by 1024.
\<close>

theorem detectWatermarkConfig_cases:
  "(detectWatermarkConfig w h = \<lparr>logoSize = 96, marginRight = 64, marginBottom = 64\<rparr>)
     = (w > 1024 \<and> h > 1024)
   \<and> (detectWatermarkConfig w h = \<lparr>logoSize = 48, marginRight = 32, marginBottom = 32\<rparr>)
     = (\<not> (w > 1024 \<and> h > 1024))
   \<and> detectWatermarkConfig 1024 1024 = \<lparr>logoSize = 48, marginRight = 32, marginBottom = 32\<rparr>
   \<and> detectWatermarkConfig 1025 1024 = \<lparr>logoSize = 48, marginRight = 32, marginBottom = 32\<rparr>"
  by (simp add: detectWatermarkConfig_def)

theorem detectWatermarkConfig_cases_witness:
  "detectWatermarkConfig 1025 1025 = \<lparr>logoSize = 96, marginRight = 64, marginBottom = 64\<rparr>
   \<and> detectWatermarkConfig 2048 1024 = \<lparr>logoSize = 48, marginRight = 32, marginBottom = 32\<rparr>"
  using detectWatermarkConfig_cases [of 1025 1025] detectWatermarkConfig_cases [of 2048 1024]
  by simp

section \<open>Reverse alpha blending: the loop, byte by byte\<close>

lemma bytewise_fold:
  "(\<And>x. x \<in> set xs \<Longrightarrow> bytewise (F x) (g x)) \<Longrightarrow>
   bytewise (fold F xs) (\<lambda>j. fold (\<lambda>x. g x j) xs)"
proof (induction xs)
  case Nil
  show ?case by (simp add: bytewise_def)
next
  case (Cons a xs)
  have a: "bytewise (F a) (g a)" using Cons.prems by simp
  have r: "bytewise (fold F xs) (\<lambda>j. fold (\<lambda>x. g x j) xs)"
    using Cons by simp
  show ?case using a r by (simp add: bytewise_def)
qed

lemma bytewise_channelStep:
  "bytewise (channelStep alpha i) (\<lambda>j v. if int j = i then storedValue alpha v else v)"
  by (auto simp: bytewise_def channelStep_def typedGet_def typedSet_def nth_list_update)

lemma fold_upt_fixed:
  "(\<And>k. k < n \<Longrightarrow> f k v = v) \<Longrightarrow> fold f [0..<n] v = v"
  by (induction n) simp_all

lemma fold_upt_single:
  "(\<And>k u. k < n \<Longrightarrow> k \<noteq> k0 \<Longrightarrow> f k u = u) \<Longrightarrow>
   fold f [0..<n] v = (if k0 < n then f k0 v else v)"
proof (induction n)
  case 0
  show ?case by simp
next
  case (Suc n)
  have ih: "fold f [0..<n] v = (if k0 < n then f k0 v else v)"
    using Suc by simp
  show ?case
  proof (cases "k0 < n")
    case True
    then have "f n (f k0 v) = f k0 v" using Suc.prems [of n "f k0 v"] by simp
    then show ?thesis using True ih by simp
  next
    case False
    show ?thesis
    proof (cases "k0 = n")
      case True
      then show ?thesis using ih by simp
    next
      case ne: False
      then have "f n v = v" using Suc.prems [of n v] by simp
      then show ?thesis using False ne ih by simp
    qed
  qed
qed

lemma bytewise_pixelStep:
  "bytewise (pixelStep W am pos row col) (pixelByte W am pos row col)"
proof -
  let ?i = "((pos_y pos + row) * W + (pos_x pos + col)) * 4"
  have f: "\<And>a. bytewise (fold (\<lambda>c. channelStep a (?i + c)) [0, 1, 2])
        (\<lambda>j. fold (\<lambda>c v. if int j = ?i + c then storedValue a v else v) [0, 1, 2])"
    by (rule bytewise_fold) (rule bytewise_channelStep)
  have g: "\<And>a j v. fold (\<lambda>c v. if int j = ?i + c then storedValue a v else v) [0, 1, 2] v
        = (if ?i \<le> int j \<and> int j \<le> ?i + 2 then storedValue a v else v)"
    by auto
  show ?thesis
    using f unfolding g
    by (auto simp: bytewise_def pixelStep_def pixelByte_def Let_def storedValue_def
             split: option.splits)
qed

lemma bytewise_removeWatermarkLoop:
  "bytewise (removeWatermarkLoop W am pos)
     (\<lambda>j. fold (\<lambda>row. fold (\<lambda>col. pixelByte W am pos (int row) (int col) j)
                          [0..<nat (pos_width pos)])
               [0..<nat (pos_height pos)])"
  unfolding removeWatermarkLoop_def
  by (rule bytewise_fold, rule bytewise_fold, rule bytewise_pixelStep)

lemma index_unique:
  fixes A B W r s :: int
  assumes "A * W + r = B * W + s" "0 \<le> r" "r < W" "0 \<le> s" "s < W"
  shows "A = B \<and> r = s"
proof -
  have W: "W \<noteq> 0" using assms by auto
  have a: "(A * W + r) div W = A" using assms(2,3) W by (simp add: div_pos_pos_trivial)
  have b: "(B * W + s) div W = B" using assms(4,5) W by (simp add: div_pos_pos_trivial)
  have "(A * W + r) div W = (B * W + s) div W" by (simp only: assms(1))
  then have "A = B" by (simp only: a b)
  then show ?thesis using assms(1) by simp
qed

lemma channel_unique:
  fixes P Q c c' :: int
  assumes "P * 4 + c' = Q * 4 + c" "0 \<le> c" "c < 4" "0 \<le> c'" "c' < 4"
  shows "P = Q \<and> c' = c"
  using assms by presburger

lemma flat_index_bound:
  fixes W H px py c :: int
  assumes "0 \<le> px" "px < W" "0 \<le> py" "py < H" "0 \<le> c" "c < 4"
  shows "0 \<le> (py * W + px) * 4 + c \<and> (py * W + px) * 4 + c < 4 * W * H"
proof -
  have "py * W \<le> (H - 1) * W" using assms by (intro mult_right_mono) auto
  then have "py * W + px < H * W" using assms by (simp add: algebra_simps)
  moreover have "0 \<le> py * W" using assms by simp
  ultimately show ?thesis using assms by (simp add: algebra_simps)
qed

lemma hit_iff:
  fixes W px py c R C :: int
  assumes "0 \<le> C" "C < W" "0 \<le> px" "px < W" "0 \<le> c" "c < 4"
  shows "((R * W + C) * 4 \<le> (py * W + px) * 4 + c \<and> (py * W + px) * 4 + c \<le> (R * W + C) * 4 + 2)
         = (c < 3 \<and> R = py \<and> C = px)"
proof
  assume h: "(R * W + C) * 4 \<le> (py * W + px) * 4 + c \<and> (py * W + px) * 4 + c \<le> (R * W + C) * 4 + 2"
  define c' where "c' = (py * W + px) * 4 + c - (R * W + C) * 4"
  have c': "0 \<le> c'" "c' < 3" "(R * W + C) * 4 + c' = (py * W + px) * 4 + c"
    using h by (simp_all add: c'_def)
  have "R * W + C = py * W + px \<and> c' = c"
    using channel_unique [OF c'(3) assms(5,6) c'(1)] c'(2) by simp
  then show "c < 3 \<and> R = py \<and> C = px"
    using index_unique [of R W C py px] assms c'(2) by simp
next
  assume "c < 3 \<and> R = py \<and> C = px"
  then show "(R * W + C) * 4 \<le> (py * W + px) * 4 + c \<and> (py * W + px) * 4 + c \<le> (R * W + C) * 4 + 2"
    using assms by simp
qed


lemma alpha_index_bound:
  fixes w h R C :: int
  assumes "0 \<le> R" "R < h" "0 \<le> C" "C < w"
  shows "0 \<le> R * w + C \<and> R * w + C < w * h"
proof -
  have "R * w \<le> (h - 1) * w" using assms by (intro mult_right_mono) auto
  then have "R * w + C < h * w" using assms by (simp add: algebra_simps)
  moreover have "0 \<le> R * w" using assms by simp
  ultimately show ?thesis using assms by (simp add: algebra_simps)
qed

lemma pixelByte_hit:
  assumes "I = ((pos_y pos + row) * W + (pos_x pos + col)) * 4" "I \<le> int j" "int j \<le> I + 2"
    and "typedGet am (row * pos_width pos + col) = Some a"
  shows "pixelByte W am pos row col j v =
         (if a < ALPHA_THRESHOLD then v else storedValue (Some (min a MAX_ALPHA)) v)"
  using assms by (simp add: pixelByte_def Let_def)

lemma removeWatermarkLoop_in_bounds:
  fixes W H px py c :: int
  assumes b: "0 \<le> pos_x pos" "0 \<le> pos_y pos" "pos_x pos + pos_width pos \<le> W"
    and len: "length d = nat (4 * W * H)"
    and am: "nat (pos_width pos * pos_height pos) \<le> length am"
    and p: "0 \<le> px" "px < W" "0 \<le> py" "py < H" "0 \<le> c" "c < 4"
  shows "length (removeWatermarkLoop W am pos d) = length d"
    and "removeWatermarkLoop W am pos d ! channelIndex W px py c =
       (if c < 3 \<and> pos_x pos \<le> px \<and> px < pos_x pos + pos_width pos
            \<and> pos_y pos \<le> py \<and> py < pos_y pos + pos_height pos
            \<and> \<not> am ! nat ((py - pos_y pos) * pos_width pos + (px - pos_x pos)) < ALPHA_THRESHOLD
        then storedValue
               (Some (min (am ! nat ((py - pos_y pos) * pos_width pos + (px - pos_x pos))) MAX_ALPHA))
               (d ! channelIndex W px py c)
        else d ! channelIndex W px py c)"
proof -
  let ?X = "pos_x pos" and ?Y = "pos_y pos" and ?w = "pos_width pos" and ?h = "pos_height pos"
  let ?j = "channelIndex W px py c"
  let ?f = "\<lambda>row col. pixelByte W am pos (int row) (int col) ?j"
  have bw: "bytewise (removeWatermarkLoop W am pos)
     (\<lambda>j. fold (\<lambda>row. fold (\<lambda>col. pixelByte W am pos (int row) (int col) j) [0..<nat ?w])
               [0..<nat ?h])"
    by (rule bytewise_removeWatermarkLoop)
  show "length (removeWatermarkLoop W am pos d) = length d"
    using bw by (simp add: bytewise_def)
  have fb: "0 \<le> (py * W + px) * 4 + c \<and> (py * W + px) * 4 + c < 4 * W * H"
    using p by (rule flat_index_bound)
  have ij: "int ?j = (py * W + px) * 4 + c"
    using fb by (simp add: channelIndex_def)
  have "nat ((py * W + px) * 4 + c) < nat (4 * W * H)"
    using fb by (subst zless_nat_conj) linarith
  then have jl: "?j < length d"
    by (simp only: channelIndex_def len)
  have res: "removeWatermarkLoop W am pos d ! ?j
        = fold (\<lambda>row. fold (?f row) [0..<nat ?w]) [0..<nat ?h] (d ! ?j)"
    using bw jl by (simp add: bytewise_def)
  have miss: "?f row col v = v"
    if "col < nat ?w" "\<not> (c < 3 \<and> ?Y + int row = py \<and> ?X + int col = px)" for row col v
  proof -
    have "0 \<le> ?X + int col" "?X + int col < W" using that(1) b by auto
    from hit_iff [OF this p(1,2,5,6), of "?Y + int row" py] that(2)
    have nh: "\<not> (((?Y + int row) * W + (?X + int col)) * 4 \<le> int ?j
               \<and> int ?j \<le> ((?Y + int row) * W + (?X + int col)) * 4 + 2)"
      unfolding ij by blast
    show ?thesis by (simp only: pixelByte_def Let_def nh if_False)
  qed
  show "removeWatermarkLoop W am pos d ! ?j =
       (if c < 3 \<and> ?X \<le> px \<and> px < ?X + ?w \<and> ?Y \<le> py \<and> py < ?Y + ?h
            \<and> \<not> am ! nat ((py - ?Y) * ?w + (px - ?X)) < ALPHA_THRESHOLD
        then storedValue (Some (min (am ! nat ((py - ?Y) * ?w + (px - ?X))) MAX_ALPHA)) (d ! ?j)
        else d ! ?j)"
  proof (cases "c < 3 \<and> ?X \<le> px \<and> px < ?X + ?w \<and> ?Y \<le> py \<and> py < ?Y + ?h")
    case False
    have no_row: "fold (?f row) [0..<nat ?w] v = v" if "row < nat ?h" for row v
    proof (rule fold_upt_fixed)
      fix col assume "col < nat ?w"
      moreover have "\<not> (c < 3 \<and> ?Y + int row = py \<and> ?X + int col = px)"
        using False that calculation by auto
      ultimately show "?f row col v = v" by (rule miss)
    qed
    have "fold (\<lambda>row. fold (?f row) [0..<nat ?w]) [0..<nat ?h] (d ! ?j) = d ! ?j"
      by (rule fold_upt_fixed) (rule no_row)
    then show ?thesis using res False by auto
  next
    case True
    define r0 where "r0 = nat (py - ?Y)"
    define c0 where "c0 = nat (px - ?X)"
    have r0: "r0 < nat ?h" "int r0 = py - ?Y" using True by (auto simp: r0_def)
    have c0: "c0 < nat ?w" "int c0 = px - ?X" using True by (auto simp: c0_def)
    have other_rows: "fold (?f row) [0..<nat ?w] v = v" if "row \<noteq> r0" for row v
    proof (rule fold_upt_fixed)
      fix col assume "col < nat ?w"
      moreover have "\<not> (c < 3 \<and> ?Y + int row = py \<and> ?X + int col = px)"
        using that r0(2) by auto
      ultimately show "?f row col v = v" by (rule miss)
    qed
    have this_row: "fold (?f r0) [0..<nat ?w] v = ?f r0 c0 v" for v
    proof -
      have "fold (?f r0) [0..<nat ?w] v = (if c0 < nat ?w then ?f r0 c0 v else v)"
      proof (rule fold_upt_single)
        fix col u assume cw: "col < nat ?w" and ne: "col \<noteq> c0"
        have "\<not> (c < 3 \<and> ?Y + int r0 = py \<and> ?X + int col = px)"
          using ne c0(2) by auto
        with cw show "?f r0 col u = u" by (rule miss)
      qed
      then show ?thesis using c0(1) by simp
    qed
    have "fold (\<lambda>row. fold (?f row) [0..<nat ?w]) [0..<nat ?h] (d ! ?j)
          = (if r0 < nat ?h then fold (?f r0) [0..<nat ?w] (d ! ?j) else d ! ?j)"
      by (rule fold_upt_single) (simp add: other_rows)
    then have val: "removeWatermarkLoop W am pos d ! ?j = ?f r0 c0 (d ! ?j)"
      using res r0(1) this_row by simp
    have ai: "0 \<le> (py - ?Y) * ?w + (px - ?X) \<and> (py - ?Y) * ?w + (px - ?X) < ?w * ?h"
      using True by (intro alpha_index_bound) auto
    then have tg: "typedGet am ((py - ?Y) * ?w + (px - ?X))
                   = Some (am ! nat ((py - ?Y) * ?w + (px - ?X)))"
      using am by (auto simp: typedGet_def)
    have hit: "((?Y + int r0) * W + (?X + int c0)) * 4 \<le> int ?j
               \<and> int ?j \<le> ((?Y + int r0) * W + (?X + int c0)) * 4 + 2"
      unfolding ij r0(2) c0(2) using True p by simp
    have "?f r0 c0 (d ! ?j) =
        (if am ! nat ((py - ?Y) * ?w + (px - ?X)) < ALPHA_THRESHOLD then d ! ?j
         else storedValue (Some (min (am ! nat ((py - ?Y) * ?w + (px - ?X))) MAX_ALPHA)) (d ! ?j))"
    proof (rule pixelByte_hit [OF refl])
      show "((?Y + int r0) * W + (?X + int c0)) * 4 \<le> int ?j" using hit by blast
      show "int ?j \<le> ((?Y + int r0) * W + (?X + int c0)) * 4 + 2" using hit by blast
      show "typedGet am (int r0 * ?w + int c0) = Some (am ! nat ((py - ?Y) * ?w + (px - ?X)))"
        using tg by (simp only: r0(2) c0(2))
    qed
    then show ?thesis using val True by simp
  qed
qed

lemma length_removeWatermarkLoop:
  "length (removeWatermarkLoop W am pos d) = length d"
  using bytewise_removeWatermarkLoop [of W am pos] by (simp add: bytewise_def)

lemma storedValue_formula:
  "storedValue (Some (min a MAX_ALPHA)) old =
   word_of_int (max 0 (min 255
     (round ((real (unat old) - min a (99 / 100) * 255) / (1 - min a (99 / 100))))))"
  by (simp add: storedValue_def reverseBlend_def Let_def MAX_ALPHA_def LOGO_VALUE_def)


lemma removeWatermarkLoop_outside_buffer:
  assumes "\<And>row col. row < nat (pos_height pos) \<Longrightarrow> col < nat (pos_width pos) \<Longrightarrow>
             ((pos_y pos + int row) * W + (pos_x pos + int col)) * 4 + 2 < 0"
  shows "removeWatermarkLoop W am pos d = d"
proof (rule nth_equalityI)
  show "length (removeWatermarkLoop W am pos d) = length d"
    by (rule length_removeWatermarkLoop)
next
  fix j assume "j < length (removeWatermarkLoop W am pos d)"
  then have jl: "j < length d" by (simp add: length_removeWatermarkLoop)
  have res: "removeWatermarkLoop W am pos d ! j
        = fold (\<lambda>row. fold (\<lambda>col. pixelByte W am pos (int row) (int col) j)
                  [0..<nat (pos_width pos)]) [0..<nat (pos_height pos)] (d ! j)"
    using bytewise_removeWatermarkLoop [of W am pos] jl by (simp add: bytewise_def)
  have px: "pixelByte W am pos (int row) (int col) j v = v"
    if "row < nat (pos_height pos)" "col < nat (pos_width pos)" for row col v
    using assms [OF that] by (simp add: pixelByte_def Let_def)
  have "fold (\<lambda>col. pixelByte W am pos (int row) (int col) j) [0..<nat (pos_width pos)] v = v"
    if "row < nat (pos_height pos)" for row v
    by (rule fold_upt_fixed) (rule px [OF that])
  then have "fold (\<lambda>row. fold (\<lambda>col. pixelByte W am pos (int row) (int col) j)
                  [0..<nat (pos_width pos)]) [0..<nat (pos_height pos)] (d ! j) = d ! j"
    by (rule fold_upt_fixed)
  then show "removeWatermarkLoop W am pos d ! j = d ! j" using res by simp
qed

section \<open>Reverse alpha blending: properties\<close>




text \<open>
  The round trip on numbers: for an integral channel value the inverse of the composite
  itself is exact. For a byte within one half of the composite, the rounding error is
  divided by \<open>1 - a\<close>.
\<close>

lemma reverseBlend_roundtrip_exact:
  assumes "2 / 1000 \<le> a" "a \<le> 99 / 100" "n \<le> 255"
  shows "reverseBlend (min a MAX_ALPHA) (a * 255 + (1 - a) * real n) = int n"
proof -
  have a1: "1 - a \<noteq> 0" using assms by simp
  have m: "min a MAX_ALPHA = a" using assms by (simp add: MAX_ALPHA_def)
  have "(a * 255 + (1 - a) * real n - a * LOGO_VALUE) / (1 - a) = real n"
    using a1 by (simp add: LOGO_VALUE_def)
  then have "reverseBlend a (a * 255 + (1 - a) * real n) = max 0 (min 255 (round (real n)))"
    by (simp add: reverseBlend_def Let_def)
  then show ?thesis using m assms(3) by simp
qed

lemma unat_byte_of_int:
  assumes "0 \<le> r" "r \<le> 255"
  shows "unat (word_of_int r :: byte) = nat r"
proof -
  have "uint (word_of_int r :: byte) = r"
    using assms by (simp add: uint_word_of_int take_bit_eq_mod)
  then show ?thesis by (simp add: unat_eq_nat_uint)
qed

lemma clamp_towards:
  fixes x :: real and k :: int
  assumes "0 \<le> x" "x \<le> 255"
  shows "\<bar>real_of_int (max 0 (min 255 k)) - x\<bar> \<le> \<bar>real_of_int k - x\<bar>"
  using assms by (auto simp: max_def min_def abs_if)

lemma inverse_of_stored_composite:
  fixes a x b :: real
  assumes a: "2 / 1000 \<le> a" "a \<le> 99 / 100" and x: "0 \<le> x" "x \<le> 255"
    and b: "\<bar>b - (a * 255 + (1 - a) * x)\<bar> \<le> 1 / 2"
  shows "\<bar>real_of_int (max 0 (min 255 (round ((b - a * 255) / (1 - a))))) - x\<bar>
           \<le> 1 / 2 + 1 / (2 * (1 - a))"
    and "a < 2 / 3 \<Longrightarrow> x \<in> \<int> \<Longrightarrow>
         \<bar>real_of_int (max 0 (min 255 (round ((b - a * 255) / (1 - a))))) - x\<bar> \<le> 1"
proof -
  let ?y = "(b - a * 255) / (1 - a)"
  have a1: "0 < 1 - a" using a by simp
  have "?y - x = (b - (a * 255 + (1 - a) * x)) / (1 - a)"
    using a1 by (simp add: field_simps)
  then have "\<bar>?y - x\<bar> = \<bar>b - (a * 255 + (1 - a) * x)\<bar> / (1 - a)"
    using a1 by simp
  also have "\<dots> \<le> (1 / 2) / (1 - a)"
    using b a1 by (intro divide_right_mono) simp_all
  finally have e: "\<bar>?y - x\<bar> \<le> 1 / (2 * (1 - a))" by simp
  have rd: "\<bar>real_of_int (round ?y) - ?y\<bar> \<le> 1 / 2"
    using of_int_round_abs_le [of ?y] by simp
  have "\<bar>real_of_int (round ?y) - x\<bar> \<le> 1 / 2 + 1 / (2 * (1 - a))"
    using e rd by linarith
  then show "\<bar>real_of_int (max 0 (min 255 (round ?y))) - x\<bar> \<le> 1 / 2 + 1 / (2 * (1 - a))"
    using clamp_towards [OF x, of "round ?y"] by linarith
  assume a23: "a < 2 / 3" and xi: "x \<in> \<int>"
  from xi obtain n where n: "x = real_of_int n" by (auto elim: Ints_cases)
  have "1 / (2 * (1 - a)) < 3 / 2"
    using a23 a1 by (simp add: field_simps)
  then have y: "real_of_int n - 3 / 2 < ?y" "?y < real_of_int n + 3 / 2"
    using e unfolding n by linarith+
  have "round ?y = \<lfloor>?y + 1 / 2\<rfloor>" by (simp add: round_def)
  moreover have "n - 1 \<le> \<lfloor>?y + 1 / 2\<rfloor>" using y(1) by (simp add: le_floor_iff)
  moreover have "\<lfloor>?y + 1 / 2\<rfloor> \<le> n + 1" using y(2) by (simp add: floor_le_iff)
  ultimately have "\<bar>round ?y - n\<bar> \<le> 1" by linarith
  then have "\<bar>real_of_int (round ?y) - x\<bar> \<le> 1"
    unfolding n by (metis of_int_abs of_int_diff of_int_le_1_iff)
  then show "\<bar>real_of_int (max 0 (min 255 (round ?y))) - x\<bar> \<le> 1"
    using clamp_towards [OF x, of "round ?y"] by linarith
qed

text \<open>
  C2, as amended. For alpha \<open>a\<close> between 0.002 and 0.99 and a channel value \<open>x\<close> between
  0 and 255, the pixel is not skipped, and the inverse formula applied to the forward
  composite \<open>a * 255 + (1 - a) * x\<close> itself gives \<open>x\<close> within 1. What \<^verbatim>\<open>removeWatermark\<close>
  reads is a byte of the raster: when the byte of a colour channel of a rectangle pixel
  with map value \<open>a\<close> is the composite rounded to a nearest integer, the byte written
  back is within \<open>1 / 2 + 1 / (2 * (1 - a))\<close> of \<open>x\<close>, and within 1 of \<open>x\<close> when \<open>x\<close> is
  an integer and \<open>a\<close> is below \<open>2 / 3\<close>.
\<close>

theorem reverseBlend_roundtrip:
  fixes a x :: real and px py c :: int
  assumes a: "2 / 1000 \<le> a" "a \<le> 99 / 100" and x: "0 \<le> x" "x \<le> 255"
    and img: "rectInBounds img pos"
      "length (img_data img) = nat (4 * img_width img * img_height img)"
      "nat (pos_width pos * pos_height pos) \<le> length am"
    and p: "pos_x pos \<le> px" "px < pos_x pos + pos_width pos"
      "pos_y pos \<le> py" "py < pos_y pos + pos_height pos" "0 \<le> c" "c < 3"
    and alpha: "am ! nat ((py - pos_y pos) * pos_width pos + (px - pos_x pos)) = a"
    and stored: "\<bar>real (unat (img_data img ! channelIndex (img_width img) px py c))
                   - (a * 255 + (1 - a) * x)\<bar> \<le> 1 / 2"
  shows "\<not> a < ALPHA_THRESHOLD
     \<and> \<bar>real_of_int (reverseBlend (min a MAX_ALPHA) (a * 255 + (1 - a) * x)) - x\<bar> \<le> 1
     \<and> (\<exists>out. removeWatermark img (Some am) pos = Inr out
          \<and> \<bar>real (unat (img_data out ! channelIndex (img_width img) px py c)) - x\<bar>
               \<le> 1 / 2 + 1 / (2 * (1 - a))
          \<and> (a < 2 / 3 \<and> x \<in> \<int> \<longrightarrow>
               \<bar>real (unat (img_data out ! channelIndex (img_width img) px py c)) - x\<bar> \<le> 1))"
proof -
  let ?out = "img\<lparr>img_data := removeWatermarkLoop (img_width img) am pos (img_data img)\<rparr>"
  let ?j = "channelIndex (img_width img) px py c"
  let ?old = "img_data img ! ?j"
  let ?r = "max 0 (min 255 (round ((real (unat ?old) - a * 255) / (1 - a))))"
  have th: "\<not> a < ALPHA_THRESHOLD" using a by (simp add: ALPHA_THRESHOLD_def)
  have m: "min a MAX_ALPHA = a" "min a (99 / 100) = a" using a by (simp_all add: MAX_ALPHA_def)
  have a1: "1 - a \<noteq> 0" using a by simp
  have u: "\<bar>real_of_int (reverseBlend (min a MAX_ALPHA) (a * 255 + (1 - a) * x)) - x\<bar> \<le> 1"
  proof -
    have "(a * 255 + (1 - a) * x - a * LOGO_VALUE) / (1 - a) = x"
      using a1 by (simp add: LOGO_VALUE_def)
    then have rb: "reverseBlend a (a * 255 + (1 - a) * x) = max 0 (min 255 (round x))"
      by (simp add: reverseBlend_def Let_def)
    have "\<bar>real_of_int (round x) - x\<bar> \<le> 1 / 2"
      using of_int_round_abs_le [of x] by simp
    then show ?thesis using rb m clamp_towards [OF x, of "round x"] by simp
  qed
  have b: "0 \<le> pos_x pos" "0 \<le> pos_y pos" "pos_x pos + pos_width pos \<le> img_width img"
    "pos_y pos + pos_height pos \<le> img_height img"
    using img(1) by (simp_all add: rectInBounds_def)
  have q: "0 \<le> px" "px < img_width img" "0 \<le> py" "py < img_height img" "0 \<le> c" "c < 4"
    using b p by simp_all
  have sv: "storedValue (Some a) ?old = word_of_int ?r"
    using storedValue_formula [of a ?old] by (simp add: m)
  have byte: "img_data ?out ! ?j = word_of_int ?r"
    using removeWatermarkLoop_in_bounds(2) [OF b(1-3) img(2) img(3) q] p alpha th
    by (simp add: m(1) sv)
  have r: "0 \<le> ?r" "?r \<le> 255" by simp_all
  have val: "real (unat (img_data ?out ! ?j)) = real_of_int ?r"
    unfolding byte unat_byte_of_int [OF r] using r(1) by simp
  note I = inverse_of_stored_composite [OF a x stored]
  have "removeWatermark img (Some am) pos = Inr ?out" by (simp add: removeWatermark_def)
  moreover have "\<bar>real (unat (img_data ?out ! ?j)) - x\<bar> \<le> 1 / 2 + 1 / (2 * (1 - a))"
    unfolding val by (rule I(1))
  moreover have "a < 2 / 3 \<and> x \<in> \<int> \<longrightarrow> \<bar>real (unat (img_data ?out ! ?j)) - x\<bar> \<le> 1"
    unfolding val using I(2) by blast
  ultimately show ?thesis using th u by blast
qed

text \<open>
  The theorem at a raster of one pixel with map value one half: the channel value 100 is
  stored as 178 and comes back as 101.
\<close>

theorem reverseBlend_roundtrip_witness:
  "rectInBounds \<lparr>img_width = 1, img_height = 1, img_data = [178, 178, 178, 255]\<rparr>
      \<lparr>pos_x = 0, pos_y = 0, pos_width = 1, pos_height = 1\<rparr>
   \<and> \<bar>real (unat (178 :: byte)) - (1 / 2 * 255 + (1 - 1 / 2) * 100)\<bar> \<le> 1 / 2
   \<and> (\<exists>out. removeWatermark \<lparr>img_width = 1, img_height = 1, img_data = [178, 178, 178, 255]\<rparr>
          (Some [1 / 2]) \<lparr>pos_x = 0, pos_y = 0, pos_width = 1, pos_height = 1\<rparr> = Inr out
        \<and> \<bar>real (unat (img_data out ! channelIndex 1 0 0 0)) - 100\<bar> \<le> 1)"
proof -
  let ?I = "\<lparr>img_width = 1, img_height = 1, img_data = [178, 178, 178, 255]\<rparr>"
  let ?P = "\<lparr>pos_x = 0, pos_y = 0, pos_width = 1, pos_height = 1\<rparr>"
  have h1: "rectInBounds ?I ?P" by (simp add: rectInBounds_def)
  have h2: "length (img_data ?I) = nat (4 * img_width ?I * img_height ?I)" by simp
  have h3: "nat (pos_width ?P * pos_height ?P) \<le> length [1 / 2 :: real]" by simp
  have h4: "[1 / 2 :: real] ! nat ((0 - pos_y ?P) * pos_width ?P + (0 - pos_x ?P)) = 1 / 2"
    by simp
  have h5: "\<bar>real (unat (img_data ?I ! channelIndex (img_width ?I) 0 0 0))
              - (1 / 2 * 255 + (1 - 1 / 2) * 100)\<bar> \<le> 1 / 2"
    by (simp add: channelIndex_def)
  have h6: "\<bar>real (unat (178 :: byte)) - (1 / 2 * 255 + (1 - 1 / 2) * 100)\<bar> \<le> 1 / 2"
    by simp
  have g: "(1 / 2 :: real) < 2 / 3 \<and> (100 :: real) \<in> \<int>" by simp
  have a: "(2 :: real) / 1000 \<le> 1 / 2" "(1 :: real) / 2 \<le> 99 / 100"
    "(0 :: real) \<le> 100" "(100 :: real) \<le> 255"
    by simp_all
  have p: "pos_x ?P \<le> 0" "0 < pos_x ?P + pos_width ?P" "pos_y ?P \<le> 0"
    "0 < pos_y ?P + pos_height ?P" "(0 :: int) \<le> 0" "(0 :: int) < 3"
    by simp_all
  note T = reverseBlend_roundtrip [OF a h1 h2 h3 p h4 h5]
  have w: "img_width ?I = 1" by simp
  from T g have "\<exists>out. removeWatermark ?I (Some [1 / 2]) ?P = Inr out
        \<and> \<bar>real (unat (img_data out ! channelIndex 1 0 0 0)) - 100\<bar> \<le> 1"
    unfolding w by blast
  then show ?thesis using h1 h6 by blast
qed

text \<open>
  C2 as stated fails on the bytes the remover reads. At map value \<open>252 / 255\<close> the
  channel value 100 is stored as 253 and comes back as 85; at map value 0.7 the channel
  value 10 is stored as 182 and comes back as 12.
\<close>

theorem roundtrip_through_raster_counterexample:
  "(2 :: real) / 1000 \<le> 252 / 255 \<and> (252 :: real) / 255 \<le> 99 / 100
   \<and> \<bar>real (unat (253 :: byte)) - (252 / 255 * 255 + (1 - 252 / 255) * 100)\<bar> \<le> 1 / 2
   \<and> (2 :: real) / 1000 \<le> 7 / 10 \<and> (7 :: real) / 10 \<le> 99 / 100
   \<and> \<bar>real (unat (182 :: byte)) - (7 / 10 * 255 + (1 - 7 / 10) * 10)\<bar> \<le> 1 / 2
   \<and> removeWatermark
        \<lparr>img_width = 2, img_height = 1, img_data = [253, 253, 253, 255, 182, 182, 182, 255]\<rparr>
        (Some [252 / 255, 7 / 10]) \<lparr>pos_x = 0, pos_y = 0, pos_width = 2, pos_height = 1\<rparr>
      = Inr \<lparr>img_width = 2, img_height = 1, img_data = [85, 85, 85, 255, 12, 12, 12, 255]\<rparr>
   \<and> 1 < \<bar>real (unat (85 :: byte)) - 100\<bar>
   \<and> 1 < \<bar>real (unat (12 :: byte)) - 10\<bar>"
  by code_simp

section \<open>Watermark rectangle and raster bounds\<close>

text \<open>
  C4, as amended. The rectangle computed for an image lies within its raster exactly
  when the width is at least logo size plus right margin and the height at least logo
  size plus bottom margin. There is no bounds assertion: with the alpha maps loaded,
  \<^verbatim>\<open>removeWatermark\<close> completes for every raster and rectangle and returns a buffer
  of the same length.
\<close>

theorem calculateWatermarkPosition_bounds:
  "rectInBounds \<lparr>img_width = w, img_height = h, img_data = d\<rparr>
       (calculateWatermarkPosition w h (detectWatermarkConfig w h))
     = (logoSize (detectWatermarkConfig w h) + marginRight (detectWatermarkConfig w h) \<le> w
        \<and> logoSize (detectWatermarkConfig w h) + marginBottom (detectWatermarkConfig w h) \<le> h)
   \<and> removeWatermark img (Some am) pos
     = Inr (img\<lparr>img_data := removeWatermarkLoop (img_width img) am pos (img_data img)\<rparr>)
   \<and> length (removeWatermarkLoop (img_width img) am pos (img_data img)) = length (img_data img)"
  by (auto simp: rectInBounds_def calculateWatermarkPosition_def detectWatermarkConfig_def
        removeWatermark_def length_removeWatermarkLoop)

theorem calculateWatermarkPosition_bounds_witness:
  "rectInBounds \<lparr>img_width = 80, img_height = 80, img_data = []\<rparr>
       (calculateWatermarkPosition 80 80 (detectWatermarkConfig 80 80))
   \<and> \<not> rectInBounds \<lparr>img_width = 79, img_height = 80, img_data = []\<rparr>
       (calculateWatermarkPosition 79 80 (detectWatermarkConfig 79 80))
   \<and> rectInBounds \<lparr>img_width = 1025, img_height = 1025, img_data = []\<rparr>
       (calculateWatermarkPosition 1025 1025 (detectWatermarkConfig 1025 1025))"
  using calculateWatermarkPosition_bounds [of 80 80 "[]"]
    calculateWatermarkPosition_bounds [of 79 80 "[]"]
    calculateWatermarkPosition_bounds [of 1025 1025 "[]"]
  by (simp add: detectWatermarkConfig_def)

text \<open>
  C4 as stated fails: for a 1 by 1 image the rectangle starts at (-79, -79), no pixel of
  it is a pixel of the raster, and \<^verbatim>\<open>removeWatermark\<close> returns normally, the raster
  unchanged.
\<close>

theorem removeWatermark_no_bounds_assert_counterexample:
  "\<not> rectInBounds \<lparr>img_width = 1, img_height = 1, img_data = [10, 20, 30, 255]\<rparr>
       (calculateWatermarkPosition 1 1 (detectWatermarkConfig 1 1))
   \<and> removeWatermark \<lparr>img_width = 1, img_height = 1, img_data = [10, 20, 30, 255]\<rparr>
        (Some (replicate 2304 (1 / 2)))
        (calculateWatermarkPosition 1 1 (detectWatermarkConfig 1 1))
     = Inr \<lparr>img_width = 1, img_height = 1, img_data = [10, 20, 30, 255]\<rparr>"
proof -
  let ?P = "calculateWatermarkPosition 1 1 (detectWatermarkConfig 1 1)"
  have P: "?P = \<lparr>pos_x = - 79, pos_y = - 79, pos_width = 48, pos_height = 48\<rparr>"
    by (simp add: calculateWatermarkPosition_def detectWatermarkConfig_def)
  have "removeWatermarkLoop 1 (replicate 2304 (1 / 2)) ?P [10, 20, 30, 255] = [10, 20, 30, 255]"
    unfolding P by (rule removeWatermarkLoop_outside_buffer) simp
  then show ?thesis
    by (simp add: removeWatermark_def P rectInBounds_def)
qed

section \<open>Encoder: properties\<close>

text \<open>
  C7. For PNG output, with \<open>q\<close> the quality clamped to 0..1 and the pixel buffer no
  longer than the canvas: at \<open>q \<ge> 0.999\<close> the result is the browser's lossless PNG
  encoding, the quantizing encoder not being consulted; below, the colour budget is 256
  when \<open>q \<ge> 0.85\<close> and 192 otherwise, and the quantizing encoder's bytes are the result
  when it delivers; when that encoder is missing, throws or returns nothing, the result
  is the lossless PNG encoding and one notice of type info is raised.
\<close>

theorem exportResultBlob_png:
  assumes "q = max 0 (min 1 (case quality of None \<Rightarrow> 1 | Some v \<Rightarrow> v))"
    and "length (img_data imageData) \<le> nat (img_width canvas * img_height canvas * 4)"
  shows "(999 / 1000 \<le> q \<longrightarrow>
            exportResultBlob env canvas imageData ''image/png'' quality
              = Inr (canvasToBlob env canvas ''image/png'' None, []))
       \<and> (q < 999 / 1000 \<longrightarrow>
            getPngColorCountForQuality q = (if 85 / 100 \<le> q then 256 else 192)
          \<and> (\<forall>encode bytes.
                upngEncode env = Some encode
                \<and> encode (img_data imageData
                     @ replicate (nat (img_width canvas * img_height canvas * 4)
                                    - length (img_data imageData)) 0)
                     (img_width canvas) (img_height canvas)
                     (if 85 / 100 \<le> q then 256 else 192) = UpngBuffer bytes
                \<longrightarrow> exportResultBlob env canvas imageData ''image/png'' quality
                      = Inr (Some (Blob bytes ''image/png''), []))
          \<and> (upngEncode env = None \<longrightarrow>
                exportResultBlob env canvas imageData ''image/png'' quality
                  = Inr (canvasToBlob env canvas ''image/png'' None,
                         [(MsgPngLibraryMissing, InfoStatus)]))
          \<and> (\<forall>encode.
                upngEncode env = Some encode
                \<and> encode (img_data imageData
                     @ replicate (nat (img_width canvas * img_height canvas * 4)
                                    - length (img_data imageData)) 0)
                     (img_width canvas) (img_height canvas)
                     (if 85 / 100 \<le> q then 256 else 192) \<in> {UpngThrows, UpngNull}
                \<longrightarrow> exportResultBlob env canvas imageData ''image/png'' quality
                      = Inr (canvasToBlob env canvas ''image/png'' None,
                             [(MsgPngCompressionFailed, InfoStatus)])))"
  using assms
  by (auto simp: exportResultBlob_def getPngColorCountForQuality_def Let_def
           split: option.splits upngResult.splits)

text \<open>
  The theorem at a 1 by 1 canvas: a quantizer that throws at quality 0.9, a quantizer that
  delivers at quality 0.8 (budget 192), and no quantizer at the default quality.
\<close>

theorem exportResultBlob_png_witness:
  "exportResultBlob
      \<lparr>canvasToBlob = (\<lambda>c m q. Some (Blob (img_data c) m)),
       upngEncode = Some (\<lambda>rgba w h colors. UpngThrows),
       drawOnWhite = (\<lambda>c. c)\<rparr>
      \<lparr>img_width = 1, img_height = 1, img_data = [1, 2, 3, 255]\<rparr>
      \<lparr>img_width = 1, img_height = 1, img_data = [1, 2, 3, 255]\<rparr>
      ''image/png'' (Some (9 / 10))
    = Inr (Some (Blob [1, 2, 3, 255] ''image/png''), [(MsgPngCompressionFailed, InfoStatus)])
   \<and> exportResultBlob
      \<lparr>canvasToBlob = (\<lambda>c m q. Some (Blob (img_data c) m)),
       upngEncode = Some (\<lambda>rgba w h colors. UpngBuffer (rgba @ [of_nat colors])),
       drawOnWhite = (\<lambda>c. c)\<rparr>
      \<lparr>img_width = 1, img_height = 1, img_data = [1, 2, 3, 255]\<rparr>
      \<lparr>img_width = 1, img_height = 1, img_data = [1, 2, 3, 255]\<rparr>
      ''image/png'' (Some (8 / 10))
    = Inr (Some (Blob [1, 2, 3, 255, 192] ''image/png''), [])
   \<and> exportResultBlob
      \<lparr>canvasToBlob = (\<lambda>c m q. Some (Blob (img_data c) m)),
       upngEncode = None,
       drawOnWhite = (\<lambda>c. c)\<rparr>
      \<lparr>img_width = 1, img_height = 1, img_data = [1, 2, 3, 255]\<rparr>
      \<lparr>img_width = 1, img_height = 1, img_data = [1, 2, 3, 255]\<rparr>
      ''image/png'' None
    = Inr (Some (Blob [1, 2, 3, 255] ''image/png''), [])"
proof -
  let ?c = "\<lparr>img_width = 1, img_height = 1, img_data = [1, 2, 3, 255]\<rparr>"
  let ?e1 = "\<lparr>canvasToBlob = (\<lambda>c m q. Some (Blob (img_data c) m)),
       upngEncode = Some (\<lambda>rgba w h colors. UpngThrows),
       drawOnWhite = (\<lambda>c. c)\<rparr>"
  let ?e2 = "\<lparr>canvasToBlob = (\<lambda>c m q. Some (Blob (img_data c) m)),
       upngEncode = Some (\<lambda>rgba w h colors. UpngBuffer (rgba @ [of_nat colors])),
       drawOnWhite = (\<lambda>c. c)\<rparr>"
  let ?e3 = "\<lparr>canvasToBlob = (\<lambda>c m q. Some (Blob (img_data c) m)),
       upngEncode = None,
       drawOnWhite = (\<lambda>c. c)\<rparr>"
  have len: "length (img_data ?c) \<le> nat (img_width ?c * img_height ?c * 4)" by simp
  have q1: "(9 / 10 :: real) = max 0 (min 1 (case Some (9 / 10) of None \<Rightarrow> 1 | Some v \<Rightarrow> v))"
    by simp
  have q2: "(8 / 10 :: real) = max 0 (min 1 (case Some (8 / 10) of None \<Rightarrow> 1 | Some v \<Rightarrow> v))"
    by simp
  have q3: "(1 :: real) = max 0 (min 1 (case None of None \<Rightarrow> 1 | Some v \<Rightarrow> v))"
    by simp
  show ?thesis
    using exportResultBlob_png [OF q1 len, of ?e1]
      exportResultBlob_png [OF q2 len, of ?e2]
      exportResultBlob_png [OF q3 len, of ?e3]
    by simp
qed

section \<open>Batch scheduler: what each operation leaves alone\<close>

lemma revokeResultUrl_frame:
  "itemHeap (revokeResultUrl a s) = itemHeap s"
  "batchItems (revokeResultUrl a s) = batchItems s"
  "processedCount (revokeResultUrl a s) = processedCount s"
  "failedCount (revokeResultUrl a s) = failedCount s"
  "cursors (revokeResultUrl a s) = cursors s"
  "workers (revokeResultUrl a s) = workers s"
  "pendingAlpha (revokeResultUrl a s) = pendingAlpha s"
  "nextUrl (revokeResultUrl a s) = nextUrl s"
  "statusLog (revokeResultUrl a s) = statusLog s"
  "started (revokeResultUrl a s) = started s"
  "decodeCalls (revokeResultUrl a s) = decodeCalls s"
  by (simp_all add: revokeResultUrl_def split: option.splits)

lemma fold_revokeResultUrl_frame:
  "itemHeap (fold revokeResultUrl xs s) = itemHeap s"
  "batchItems (fold revokeResultUrl xs s) = batchItems s"
  "processedCount (fold revokeResultUrl xs s) = processedCount s"
  "failedCount (fold revokeResultUrl xs s) = failedCount s"
  "cursors (fold revokeResultUrl xs s) = cursors s"
  "workers (fold revokeResultUrl xs s) = workers s"
  "pendingAlpha (fold revokeResultUrl xs s) = pendingAlpha s"
  "nextUrl (fold revokeResultUrl xs s) = nextUrl s"
  "statusLog (fold revokeResultUrl xs s) = statusLog s"
  "started (fold revokeResultUrl xs s) = started s"
  "decodeCalls (fold revokeResultUrl xs s) = decodeCalls s"
  by (induction xs arbitrary: s; simp add: revokeResultUrl_frame)+

lemma resetUI_frame:
  "itemHeap (resetUI s) = itemHeap s"
  "batchItems (resetUI s) = []"
  "processedCount (resetUI s) = 0"
  "failedCount (resetUI s) = 0"
  "cursors (resetUI s) = cursors s"
  "workers (resetUI s) = workers s"
  "pendingAlpha (resetUI s) = pendingAlpha s"
  "nextUrl (resetUI s) = nextUrl s"
  "statusLog (resetUI s) = statusLog s @ [(MsgCleared, InfoStatus)]"
  "started (resetUI s) = started s"
  "decodeCalls (resetUI s) = decodeCalls s"
  by (simp_all add: resetUI_def Let_def setStatus_def fold_revokeResultUrl_frame)

lemma isSupportedImageFile_exact_types:
  "file_type f = ''image/png'' \<or> file_type f = ''image/jpeg'' \<or> file_type f = ''image/webp''
   \<Longrightarrow> isSupportedImageFile f"
  by (auto simp: isSupportedImageFile_def)

section \<open>Batch admission\<close>








section \<open>Batch scheduler: well-formed states\<close>

lemmas sched_defs = setStatus_def updateItem_def revokeResultUrl_def failItem_def afterImage_def
  processOneItemStart_def workerLoop_def setWorker_def

lemma wellFormed_alt:
  "wellFormed s =
     ((\<forall>a \<in> set (batchItems s). a < length (itemHeap s))
      \<and> distinct (batchItems s)
      \<and> (\<forall>w < length (workers s). fst (workers s ! w) < length (cursors s)
            \<and> (\<forall>a. holding (snd (workers s ! w)) = Some a \<longrightarrow> a < length (itemHeap s)))
      \<and> (\<forall>p \<in> set (started s). fst p < length (cursors s)))"
  unfolding wellFormed_def
  apply (subst list_all_iff [of _ "batchItems s"])
  apply (subst list_all_iff [of _ "started s"])
  apply (subst list_all_length)
  apply (auto split: option.splits)
  done

lemma wf_worker:
  assumes "wellFormed s" "w < length (workers s)" "workers s ! w = (r, pc)"
  shows "r < length (cursors s)" and "holding pc = Some a \<Longrightarrow> a < length (itemHeap s)"
  using assms by (auto simp: wellFormed_alt)

lemma wf_decoded:
  assumes wf: "wellFormed s" and d: "decoded w out b s = Some s'"
  shows "wellFormed s'"
proof -
  from d obtain r a where w: "w < length (workers s)" "workers s ! w = (r, AwaitDecode a)"
    by (auto simp: decoded_def split: if_splits prod.splits workerPc.splits)
  from wf_worker [OF wf w] have v: "r < length (cursors s)" "a < length (itemHeap s)" by auto
  show ?thesis
    using wf d w v
    by (fastforce simp: decoded_def sched_defs wellFormed_alt Let_def nth_list_update
        split: option.splits if_splits)
qed

lemma wf_encoded:
  assumes wf: "wellFormed s" and d: "encoded w out s = Some s'"
  shows "wellFormed s'"
proof -
  from d obtain r a where w: "w < length (workers s)" "workers s ! w = (r, AwaitEncode a)"
    by (auto simp: encoded_def split: if_splits prod.splits workerPc.splits)
  from wf_worker [OF wf w] have v: "r < length (cursors s)" "a < length (itemHeap s)" by auto
  show ?thesis
    using wf d w v
    by (fastforce simp: encoded_def sched_defs wellFormed_alt Let_def nth_list_update
        split: option.splits if_splits)
qed

lemma wf_resumed:
  assumes wf: "wellFormed s" and d: "resumed w b s = Some s'"
  shows "wellFormed s'"
proof -
  from d obtain r where w: "w < length (workers s)" "workers s ! w = (r, ItemDone)"
    by (auto simp: resumed_def split: if_splits prod.splits workerPc.splits)
  from wf_worker [OF wf w] have v: "r < length (cursors s)" by auto
  show ?thesis
    using wf d w v
    by (fastforce simp: resumed_def sched_defs wellFormed_alt Let_def nth_list_update split_def
        split: option.splits if_splits)
qed


lemma reprocessItem_frame:
  "length (itemHeap (reprocessItem a s)) = length (itemHeap s)"
  "batchItems (reprocessItem a s) = batchItems s"
  "processedCount (reprocessItem a s) = processedCount s"
  "failedCount (reprocessItem a s) = failedCount s"
  "cursors (reprocessItem a s) = cursors s"
  "workers (reprocessItem a s) = workers s"
  "pendingAlpha (reprocessItem a s) = pendingAlpha s"
  "nextUrl (reprocessItem a s) = nextUrl s"
  "statusLog (reprocessItem a s) = statusLog s"
  "started (reprocessItem a s) = started s"
  "decodeCalls (reprocessItem a s) = decodeCalls s"
  by (simp_all add: reprocessItem_def Let_def updateItem_def revokeResultUrl_def split: option.splits)

lemma fold_reprocessItem_frame:
  "length (itemHeap (fold reprocessItem xs s)) = length (itemHeap s)"
  "batchItems (fold reprocessItem xs s) = batchItems s"
  "processedCount (fold reprocessItem xs s) = processedCount s"
  "failedCount (fold reprocessItem xs s) = failedCount s"
  "cursors (fold reprocessItem xs s) = cursors s"
  "workers (fold reprocessItem xs s) = workers s"
  "pendingAlpha (fold reprocessItem xs s) = pendingAlpha s"
  "nextUrl (fold reprocessItem xs s) = nextUrl s"
  "statusLog (fold reprocessItem xs s) = statusLog s"
  "started (fold reprocessItem xs s) = started s"
  "decodeCalls (fold reprocessItem xs s) = decodeCalls s"
  by (induction xs arbitrary: s; simp add: reprocessItem_frame)+

lemma reprocessReset_frame:
  "length (itemHeap (reprocessReset s)) = length (itemHeap s)"
  "batchItems (reprocessReset s) = batchItems s"
  "processedCount (reprocessReset s) = 0"
  "failedCount (reprocessReset s) = 0"
  "cursors (reprocessReset s) = cursors s"
  "workers (reprocessReset s) = workers s"
  "pendingAlpha (reprocessReset s) = pendingAlpha s"
  "nextUrl (reprocessReset s) = nextUrl s"
  "statusLog (reprocessReset s) = statusLog s"
  "started (reprocessReset s) = started s"
  "decodeCalls (reprocessReset s) = decodeCalls s"
  by (simp_all add: reprocessReset_def fold_reprocessItem_frame)

lemma wellFormed_cong:
  assumes "length (itemHeap t) = length (itemHeap s)" "batchItems t = batchItems s"
    "length (cursors t) = length (cursors s)" "workers t = workers s" "started t = started s"
  shows "wellFormed t = wellFormed s"
  using assms by (simp add: wellFormed_alt)

lemma wf_resetUI: "wellFormed s \<Longrightarrow> wellFormed (resetUI s)"
  by (simp add: wellFormed_alt resetUI_frame)

lemma wf_reprocessReset: "wellFormed s \<Longrightarrow> wellFormed (reprocessReset s)"
  by (simp add: wellFormed_cong [of "reprocessReset s" s] reprocessReset_frame)

lemma wf_launchWorkers: "wellFormed s \<Longrightarrow> wellFormed (launchWorkers bs s)"
  by (fastforce simp: launchWorkers_def sched_defs wellFormed_alt Let_def nth_list_update split_def
        nth_append split: option.splits if_splits)

lemma wf_handleFiles: "wellFormed s \<Longrightarrow> wellFormed (handleFiles files s)"
  by (auto simp: handleFiles_def Let_def setStatus_def wellFormed_alt resetUI_frame distinct_map
        inj_on_def)

lemma wf_setStatus [simp]: "wellFormed (setStatus m t s) = wellFormed s"
  by (rule wellFormed_cong) (simp_all add: setStatus_def)

lemma wf_pendingAlpha [simp]: "wellFormed (s\<lparr>pendingAlpha := n\<rparr>) = wellFormed s"
  by (rule wellFormed_cong) simp_all

lemma wf_alphaMapsSettled:
  "wellFormed s \<Longrightarrow> alphaMapsSettled ok bs s = Some s' \<Longrightarrow> wellFormed s'"
  by (auto simp: alphaMapsSettled_def Let_def wf_launchWorkers split: if_splits)

lemma wf_reprocessCurrentBatch:
  "wellFormed s \<Longrightarrow> wellFormed (reprocessCurrentBatch ok bs s)"
  by (simp add: reprocessCurrentBatch_def wf_launchWorkers wf_reprocessReset)

lemma wf_step: "wellFormed s \<Longrightarrow> step e s = Some s' \<Longrightarrow> wellFormed s'"
  by (cases e)
     (auto simp: wf_handleFiles wf_reprocessCurrentBatch wf_resetUI
           dest: wf_alphaMapsSettled wf_decoded wf_encoded wf_resumed)

lemma wf_run: "wellFormed s \<Longrightarrow> run es s = Some s' \<Longrightarrow> wellFormed s'"
proof (induction es arbitrary: s)
  case Nil
  then show ?case by simp
next
  case (Cons e es)
  then show ?case by (auto split: option.splits dest: wf_step)
qed

lemma wf_pageLoaded: "wellFormed pageLoaded"
  by (simp add: pageLoaded_def wellFormed_alt resetUI_frame)

section \<open>Batch scheduler: one launch on its own\<close>

lemma filter_update_length:
  "w < length xs \<Longrightarrow>
   length (filter P (xs[w := v])) + (if P (xs ! w) then 1 else 0)
     = length (filter P xs) + (if P v then 1 else 0)"
proof (induction xs arbitrary: w)
  case Nil
  then show ?case by simp
next
  case (Cons x xs)
  then show ?case by (cases w) auto
qed

lemma inFlight_setWorker:
  "w < length (workers s) \<Longrightarrow>
   inFlight (setWorker w r pc s) + (if holding (snd (workers s ! w)) \<noteq> None then 1 else 0)
     = inFlight s + (if holding pc \<noteq> None then 1 else 0)"
  using filter_update_length [of w "workers s" "\<lambda>w. holding (snd w) \<noteq> None" "(r, pc)"]
  by (simp add: inFlight_def setWorker_def)

lemma inFlight_workers: "workers t = workers s \<Longrightarrow> inFlight t = inFlight s"
  by (simp add: inFlight_def)

lemma takenBy_append:
  "started t = started s @ [(r', a)] \<Longrightarrow>
   takenBy r t = takenBy r s @ (if r' = r then [a] else [])"
  by (simp add: takenBy_def)

lemma takenBy_started: "started t = started s \<Longrightarrow> takenBy r t = takenBy r s"
  by (simp add: takenBy_def)

lemma failureHints_append:
  "statusLog t = statusLog s @ [m] \<Longrightarrow>
   failureHints t = failureHints s + (if m = (MsgSomeFailed, ErrorStatus) then 1 else 0)"
  by (simp add: failureHints_def)

lemma singleRun_alt:
  "singleRun r s =
     (wellFormed s
      \<and> r < length (cursors s)
      \<and> cursors s ! r \<le> length (batchItems s)
      \<and> takenBy r s = take (cursors s ! r) (batchItems s)
      \<and> (\<forall>w < length (workers s). snd (workers s ! w) \<noteq> Exited \<longrightarrow> fst (workers s ! w) = r)
      \<and> (\<forall>w < length (workers s). fst (workers s ! w) = r \<and> snd (workers s ! w) = Exited
            \<longrightarrow> cursors s ! r = length (batchItems s))
      \<and> (\<forall>i < cursors s ! r.
            (\<exists>w < length (workers s). holding (snd (workers s ! w)) = Some (batchItems s ! i))
            \<or> item_status (itemHeap s ! (batchItems s ! i)) = StatusCompleted
            \<or> item_status (itemHeap s ! (batchItems s ! i)) = StatusError)
      \<and> processedCount s + failedCount s + inFlight s = cursors s ! r)"
  unfolding singleRun_def list_all_length list_ex_length
  by (auto simp: min_def)


lemma inFlight_update:
  assumes "w < length (workers s)" "workers t = (workers s)[w := (r, pc)]"
  shows "inFlight t + (if holding (snd (workers s ! w)) \<noteq> None then 1 else 0)
         = inFlight s + (if holding pc \<noteq> None then 1 else 0)"
  using filter_update_length [of w "workers s" "\<lambda>w. holding (snd w) \<noteq> None" "(r, pc)"] assms
  by (simp add: inFlight_def)

text \<open>A worker of the launch moves on with the item it holds.\<close>

lemma singleRun_worker_step:
  assumes sr: "singleRun r s"
    and w: "w < length (workers s)" "workers s ! w = (r, pc)" "holding pc = Some a"
    and same: "batchItems t = batchItems s" "cursors t = cursors s" "started t = started s"
      "length (itemHeap t) = length (itemHeap s)"
    and ws: "workers t = (workers s)[w := (r, pc')]" "pc' \<noteq> Exited"
    and others: "\<And>a'. a' \<noteq> a \<Longrightarrow> item_status (itemHeap t ! a') = item_status (itemHeap s ! a')"
    and item: "holding pc' = Some a
                 \<and> processedCount t + failedCount t = processedCount s + failedCount s
               \<or> holding pc' = None
                 \<and> (item_status (itemHeap t ! a) = StatusCompleted
                      \<or> item_status (itemHeap t ! a) = StatusError)
                 \<and> processedCount t + failedCount t = processedCount s + failedCount s + 1"
  shows "singleRun r t"
proof -
  note S = sr [unfolded singleRun_alt]
  have wf: "wellFormed s" using S by simp
  have a: "a < length (itemHeap s)" using wf_worker(2) [OF wf w(1,2) w(3)] .
  have r: "r < length (cursors s)" using S by simp
  have wft: "wellFormed t"
    using wf w a r same ws item
    by (fastforce simp: wellFormed_alt nth_list_update)
  have tk: "takenBy r t = take (cursors t ! r) (batchItems t)"
    using S same(1,2) takenBy_started [OF same(3), of r] by simp
  have on: "\<forall>v < length (workers t). snd (workers t ! v) \<noteq> Exited \<longrightarrow> fst (workers t ! v) = r"
    using S ws w(1) by (auto simp: nth_list_update)
  have ex: "\<forall>v < length (workers t). fst (workers t ! v) = r \<and> snd (workers t ! v) = Exited
            \<longrightarrow> cursors t ! r = length (batchItems t)"
    using S ws w(1) same by (auto simp: nth_list_update)
  have st: "(\<exists>v < length (workers t). holding (snd (workers t ! v)) = Some (batchItems t ! i))
            \<or> item_status (itemHeap t ! (batchItems t ! i)) = StatusCompleted
            \<or> item_status (itemHeap t ! (batchItems t ! i)) = StatusError"
    if i: "i < cursors t ! r" for i
  proof (cases "batchItems s ! i = a")
    case True
    from this show ?thesis
    proof (cases "holding pc' = Some a")
      case h: True
      have "w < length (workers t)" "holding (snd (workers t ! w)) = Some a"
        using ws w h by simp_all
      then show ?thesis using True same by auto
    next
      case False
      then show ?thesis using item True same by auto
    qed
  next
    case False
    from S i same
    consider v where "v < length (workers s)" "holding (snd (workers s ! v)) = Some (batchItems s ! i)"
      | "item_status (itemHeap s ! (batchItems s ! i)) = StatusCompleted
         \<or> item_status (itemHeap s ! (batchItems s ! i)) = StatusError"
      by auto
    then show ?thesis
    proof cases
      case 1
      then have "v \<noteq> w" using w False by auto
      then have "holding (snd (workers t ! v)) = Some (batchItems t ! i)" "v < length (workers t)"
        using 1 ws same by simp_all
      then show ?thesis by blast
    next
      case 2
      then show ?thesis using others [OF False] same by simp
    qed
  qed
  have ct: "processedCount t + failedCount t + inFlight t = cursors t ! r"
    using inFlight_update [OF w(1) ws(1)] w item S same by auto
  show ?thesis
    unfolding singleRun_alt using wft r S same tk on ex st ct by simp
qed


lemma singleRun_worker:
  assumes "singleRun r s" "w < length (workers s)" "workers s ! w = (r', pc)" "pc \<noteq> Exited"
  shows "r' = r"
  using assms by (auto simp: singleRun_alt)

lemma singleRun_decoded:
  assumes sr: "singleRun r s" and d: "decoded w out b s = Some t"
  shows "singleRun r t" and "batchItems t = batchItems s"
    and "failureHints t + failedCount s = failureHints s + failedCount t"
proof -
  from d obtain r' a where w: "w < length (workers s)" "workers s ! w = (r', AwaitDecode a)"
    by (auto simp: decoded_def split: if_splits prod.splits workerPc.splits)
  have r': "r' = r" using singleRun_worker [OF sr w] by simp
  have wf: "wellFormed s" using sr by (simp add: singleRun_def)
  have a: "a < length (itemHeap s)" using wf_worker(2) [OF wf w] by simp
  show "batchItems t = batchItems s"
    using d w by (auto simp: decoded_def sched_defs Let_def split: option.splits if_splits)
  show "failureHints t + failedCount s = failureHints s + failedCount t"
    using d w
    by (auto simp: decoded_def sched_defs Let_def failureHints_def split: option.splits if_splits)
  show "singleRun r t"
  proof (cases "out \<noteq> None \<and> b")
    case True
    show ?thesis
      by (rule singleRun_worker_step [OF sr w(1) w(2) [unfolded r'], where a = a and pc' = "AwaitEncode a"])
         (use d w a True r' in \<open>auto simp: decoded_def sched_defs Let_def nth_list_update\<close>)
  next
    case False
    show ?thesis
      by (rule singleRun_worker_step [OF sr w(1) w(2) [unfolded r'], where a = a and pc' = ItemDone])
         (use d w a False r' in \<open>auto simp: decoded_def sched_defs Let_def nth_list_update
             split: option.splits\<close>)
  qed
qed

lemma singleRun_encoded:
  assumes sr: "singleRun r s" and d: "encoded w out s = Some t"
  shows "singleRun r t" and "batchItems t = batchItems s"
    and "failureHints t + failedCount s = failureHints s + failedCount t"
proof -
  from d obtain r' a where w: "w < length (workers s)" "workers s ! w = (r', AwaitEncode a)"
    by (auto simp: encoded_def split: if_splits prod.splits workerPc.splits)
  have r': "r' = r" using singleRun_worker [OF sr w] by simp
  have wf: "wellFormed s" using sr by (simp add: singleRun_def)
  have a: "a < length (itemHeap s)" using wf_worker(2) [OF wf w] by simp
  show "batchItems t = batchItems s"
    using d w by (auto simp: encoded_def sched_defs Let_def split: option.splits if_splits)
  show "failureHints t + failedCount s = failureHints s + failedCount t"
    using d w
    by (auto simp: encoded_def sched_defs Let_def failureHints_def split: option.splits if_splits)
  show "singleRun r t"
    by (rule singleRun_worker_step [OF sr w(1) w(2) [unfolded r'], where a = a and pc' = ItemDone])
       (use d w a r' in \<open>auto simp: encoded_def sched_defs Let_def nth_list_update
           split: option.splits\<close>)
qed


text \<open>What one turn of the worker loop does, whatever the workers are.\<close>

lemma workerLoop_cases:
  assumes "workerLoop b r s = (pc, t)"
  obtains (exit) "\<not> cursors s ! r < length (batchItems s)" "pc = Exited" "t = s"
  | (take) a where "cursors s ! r < length (batchItems s)" "a = batchItems s ! (cursors s ! r)"
      "holding pc = Some a"
      "cursors t = (cursors s)[r := Suc (cursors s ! r)] \<and> started t = started s @ [(r, a)]
       \<and> batchItems t = batchItems s \<and> itemHeap t = itemHeap s \<and> workers t = workers s
       \<and> processedCount t = processedCount s \<and> failedCount t = failedCount s
       \<and> statusLog t = statusLog s \<and> revoked t = revoked s \<and> nextUrl t = nextUrl s
       \<and> pendingAlpha t = pendingAlpha s"
      "pc = AwaitDecode a \<and> originalImg (itemHeap s ! a) = None \<and> decodeCalls t = decodeCalls s @ [a]
       \<or> pc = AwaitEncode a \<and> originalImg (itemHeap s ! a) \<noteq> None \<and> decodeCalls t = decodeCalls s"
  | (fail) a where "cursors s ! r < length (batchItems s)" "a = batchItems s ! (cursors s ! r)"
      "pc = ItemDone"
      "t = s\<lparr>cursors := (cursors s)[r := Suc (cursors s ! r)], started := started s @ [(r, a)],
                itemHeap := (itemHeap s)[a := (itemHeap s ! a)\<lparr>item_status := StatusError\<rparr>],
                failedCount := Suc (failedCount s),
                statusLog := statusLog s @ [(MsgSomeFailed, ErrorStatus)]\<rparr>"
  using assms
  by (auto simp: workerLoop_def processOneItemStart_def afterImage_def failItem_def setStatus_def
        updateItem_def Let_def split: if_splits option.splits)


lemma singleRun_loop_turn:
  assumes sr: "singleRun r s"
    and w: "w < length (workers s)" "workers s ! w = (r, ItemDone)"
    and l: "workerLoop b r s = (pc, t0)"
    and t: "t = setWorker w r pc t0"
  shows "singleRun r t" and "batchItems t = batchItems s"
    and "failureHints t + failedCount s = failureHints s + failedCount t"
proof -
  note S = sr [unfolded singleRun_alt]
  have wf: "wellFormed s" using S by simp
  have r: "r < length (cursors s)" using S by simp
  have hw: "holding (snd (workers s ! w)) = None" using w by simp
  from l have "singleRun r t \<and> batchItems t = batchItems s
       \<and> failureHints t + failedCount s = failureHints s + failedCount t"
  proof (cases rule: workerLoop_cases)
    case exit
    have c: "cursors s ! r = length (batchItems s)" using exit S by simp
    have ws: "workers t = (workers s)[w := (r, Exited)]" using t exit by (simp add: setWorker_def)
    have same: "batchItems t = batchItems s" "cursors t = cursors s" "started t = started s"
      "itemHeap t = itemHeap s" "processedCount t = processedCount s" "failedCount t = failedCount s"
      "statusLog t = statusLog s"
      using t exit by (simp_all add: setWorker_def)
    have wft: "wellFormed t"
      using wf w r same ws by (fastforce simp: wellFormed_alt nth_list_update)
    have st: "(\<exists>v < length (workers t). holding (snd (workers t ! v)) = Some (batchItems t ! i))
            \<or> item_status (itemHeap t ! (batchItems t ! i)) = StatusCompleted
            \<or> item_status (itemHeap t ! (batchItems t ! i)) = StatusError"
      if i: "i < cursors t ! r" for i
    proof -
      from S i same
      consider v where "v < length (workers s)" "holding (snd (workers s ! v)) = Some (batchItems s ! i)"
        | "item_status (itemHeap s ! (batchItems s ! i)) = StatusCompleted
           \<or> item_status (itemHeap s ! (batchItems s ! i)) = StatusError"
        by auto
      then show ?thesis
      proof cases
        case 1
        then have "v \<noteq> w" using hw by auto
        then have "holding (snd (workers t ! v)) = Some (batchItems t ! i)" "v < length (workers t)"
          using 1 ws same by simp_all
        then show ?thesis by blast
      next
        case 2
        then show ?thesis using same by simp
      qed
    qed
    have ct: "processedCount t + failedCount t + inFlight t = cursors t ! r"
      using inFlight_update [OF w(1) ws] hw S same by auto
    have "singleRun r t"
      unfolding singleRun_alt
      using wft r S same c ws w(1) st ct takenBy_started [OF same(3), of r]
      by (auto simp: nth_list_update)
    then show ?thesis using same by (simp add: failureHints_def)
  next
    case (take a)
    let ?c = "cursors s ! r"
    have ws: "workers t = (workers s)[w := (r, pc)]" using t take(4) by (simp add: setWorker_def)
    have same: "batchItems t = batchItems s" "cursors t = (cursors s)[r := Suc ?c]"
      "started t = started s @ [(r, a)]"
      "itemHeap t = itemHeap s" "processedCount t = processedCount s" "failedCount t = failedCount s"
      "statusLog t = statusLog s"
      using t take(4) by (simp_all add: setWorker_def)
    have ct': "cursors t ! r = Suc ?c" using same r by simp
    have a: "a < length (itemHeap s)" using wf take by (simp add: wellFormed_alt)
    have pc: "pc \<noteq> Exited" using take by auto
    have wft: "wellFormed t"
      using wf w r same ws a take(3) by (fastforce simp: wellFormed_alt nth_list_update)
    have tk: "takenBy r t = take (cursors t ! r) (batchItems t)"
      using takenBy_append [OF same(3), of r] S take(1,2) same(1) ct'
      by (simp add: take_Suc_conv_app_nth)
    have noexit: "\<not> (fst (workers s ! v) = r \<and> snd (workers s ! v) = Exited)"
      if "v < length (workers s)" for v
      using S that take(1) by auto
    have st: "(\<exists>v < length (workers t). holding (snd (workers t ! v)) = Some (batchItems t ! i))
            \<or> item_status (itemHeap t ! (batchItems t ! i)) = StatusCompleted
            \<or> item_status (itemHeap t ! (batchItems t ! i)) = StatusError"
      if i: "i < cursors t ! r" for i
    proof (cases "i = ?c")
      case True
      have "w < length (workers t)" "holding (snd (workers t ! w)) = Some (batchItems t ! i)"
        using ws w take True same by simp_all
      then show ?thesis by blast
    next
      case False
      then have "i < ?c" using i ct' by simp
      with S
      consider v where "v < length (workers s)" "holding (snd (workers s ! v)) = Some (batchItems s ! i)"
        | "item_status (itemHeap s ! (batchItems s ! i)) = StatusCompleted
           \<or> item_status (itemHeap s ! (batchItems s ! i)) = StatusError"
        by auto
      then show ?thesis
      proof cases
        case 1
        then have "v \<noteq> w" using hw by auto
        then have "holding (snd (workers t ! v)) = Some (batchItems t ! i)" "v < length (workers t)"
          using 1 ws same by simp_all
        then show ?thesis by blast
      next
        case 2
        then show ?thesis using same by simp
      qed
    qed
    have ct: "processedCount t + failedCount t + inFlight t = cursors t ! r"
      using inFlight_update [OF w(1) ws] hw S same ct' take(3) by auto
    have "singleRun r t"
      unfolding singleRun_alt
      using wft r S same ct' take(1) ws w(1) st ct tk pc noexit
      by (auto simp: nth_list_update)
    then show ?thesis using same by (simp add: failureHints_def)
  next
    case (fail a)
    let ?c = "cursors s ! r"
    have ws: "workers t = (workers s)[w := (r, ItemDone)]" using t fail by (simp add: setWorker_def)
    have same: "batchItems t = batchItems s" "cursors t = (cursors s)[r := Suc ?c]"
      "started t = started s @ [(r, a)]"
      "itemHeap t = (itemHeap s)[a := (itemHeap s ! a)\<lparr>item_status := StatusError\<rparr>]"
      "processedCount t = processedCount s" "failedCount t = Suc (failedCount s)"
      "statusLog t = statusLog s @ [(MsgSomeFailed, ErrorStatus)]"
      using t fail by (simp_all add: setWorker_def)
    have ct': "cursors t ! r = Suc ?c" using same r by simp
    have a: "a < length (itemHeap s)" using wf fail by (simp add: wellFormed_alt)
    have wft: "wellFormed t"
      using wf w r same ws a by (fastforce simp: wellFormed_alt nth_list_update)
    have tk: "takenBy r t = take (cursors t ! r) (batchItems t)"
      using takenBy_append [OF same(3), of r] S fail(1,2) same(1) ct'
      by (simp add: take_Suc_conv_app_nth)
    have noexit: "\<not> (fst (workers s ! v) = r \<and> snd (workers s ! v) = Exited)"
      if "v < length (workers s)" for v
      using S that fail(1) by auto
    have st: "(\<exists>v < length (workers t). holding (snd (workers t ! v)) = Some (batchItems t ! i))
            \<or> item_status (itemHeap t ! (batchItems t ! i)) = StatusCompleted
            \<or> item_status (itemHeap t ! (batchItems t ! i)) = StatusError"
      if i: "i < cursors t ! r" for i
    proof (cases "batchItems s ! i = a")
      case True
      then show ?thesis using same a by simp
    next
      case False
      then have "i \<noteq> ?c" using fail(2) by auto
      then have "i < ?c" using i ct' by simp
      with S
      consider v where "v < length (workers s)" "holding (snd (workers s ! v)) = Some (batchItems s ! i)"
        | "item_status (itemHeap s ! (batchItems s ! i)) = StatusCompleted
           \<or> item_status (itemHeap s ! (batchItems s ! i)) = StatusError"
        by auto
      then show ?thesis
      proof cases
        case 1
        then have "v \<noteq> w" using hw by auto
        then have "holding (snd (workers t ! v)) = Some (batchItems t ! i)" "v < length (workers t)"
          using 1 ws same by simp_all
        then show ?thesis by blast
      next
        case 2
        then show ?thesis using same False by simp
      qed
    qed
    have ct: "processedCount t + failedCount t + inFlight t = cursors t ! r"
      using inFlight_update [OF w(1) ws] hw S same ct' by auto
    have "singleRun r t"
      unfolding singleRun_alt
      using wft r S same(1,2) ct' fail(1) ws w(1) st ct tk noexit
      by (auto simp: nth_list_update)
    then show ?thesis using same by (simp add: failureHints_def)
  qed
  then show "singleRun r t" and "batchItems t = batchItems s"
    and "failureHints t + failedCount s = failureHints s + failedCount t"
    by simp_all
qed


lemma singleRun_resumed:
  assumes sr: "singleRun r s" and d: "resumed w b s = Some t"
  shows "singleRun r t" and "batchItems t = batchItems s"
    and "failureHints t + failedCount s = failureHints s + failedCount t"
proof -
  from d obtain r' where w: "w < length (workers s)" "workers s ! w = (r', ItemDone)"
    by (auto simp: resumed_def split: if_splits prod.splits workerPc.splits)
  have r': "r' = r" using singleRun_worker [OF sr w] by simp
  obtain pc t0 where l: "workerLoop b r s = (pc, t0)" by (cases "workerLoop b r s")
  have t: "t = setWorker w r pc t0"
    using d w l r' by (simp add: resumed_def)
  note L = singleRun_loop_turn [OF sr w(1) w(2) [unfolded r'] l t]
  show "singleRun r t" by (rule L(1))
  show "batchItems t = batchItems s" by (rule L(2))
  show "failureHints t + failedCount s = failureHints s + failedCount t" by (rule L(3))
qed

lemma singleRun_step:
  assumes "singleRun r s" "workerEvent e" "step e s = Some t"
  shows "singleRun r t \<and> batchItems t = batchItems s
         \<and> failureHints t + failedCount s = failureHints s + failedCount t"
proof (cases e)
  case (EvDecoded w out b)
  then show ?thesis using assms singleRun_decoded [of r s w out b t] by simp
next
  case (EvEncoded w out)
  then show ?thesis using assms singleRun_encoded [of r s w out t] by simp
next
  case (EvResumed w b)
  then show ?thesis using assms singleRun_resumed [of r s w b t] by simp
qed (use assms in simp_all)

lemma singleRun_run:
  assumes "singleRun r s" "list_all workerEvent es" "run es s = Some t"
  shows "singleRun r t \<and> batchItems t = batchItems s
         \<and> failureHints t + failedCount s = failureHints s + failedCount t"
  using assms
proof (induction es arbitrary: s)
  case Nil
  then show ?case by simp
next
  case (Cons e es)
  from Cons.prems obtain u where u: "step e s = Some u" "run es u = Some t"
    by (auto split: option.splits)
  have e: "workerEvent e" "list_all workerEvent es" using Cons.prems by simp_all
  note A = singleRun_step [OF Cons.prems(1) e(1) u(1)]
  note B = Cons.IH [OF _ e(2) u(2)]
  from A B show ?case by auto
qed

lemma workerLoop_workers:
  assumes "workerLoop b r s = (pc, t)"
  shows "workerLoop b r (s\<lparr>workers := ws\<rparr>) = (pc, t\<lparr>workers := ws\<rparr>)"
  using assms
  by (auto simp: workerLoop_def processOneItemStart_def afterImage_def failItem_def setStatus_def
        updateItem_def Let_def split: if_splits option.splits)

lemma workerLoop_keeps_workers:
  assumes "workerLoop b r s = (pc, t)"
  shows "workers t = workers s"
  using assms
  by (auto simp: workerLoop_def processOneItemStart_def afterImage_def failItem_def setStatus_def
        updateItem_def Let_def split: if_splits option.splits)

lemma singleRun_add_worker:
  assumes sr: "singleRun r s"
  shows "singleRun r (s\<lparr>workers := workers s @ [(r, ItemDone)]\<rparr>)"
proof -
  note S = sr [unfolded singleRun_alt]
  have "inFlight (s\<lparr>workers := workers s @ [(r, ItemDone)]\<rparr>) = inFlight s"
    by (simp add: inFlight_def)
  moreover have "wellFormed (s\<lparr>workers := workers s @ [(r, ItemDone)]\<rparr>)"
    using S by (fastforce simp: wellFormed_alt nth_append)
  moreover have "\<exists>v < Suc (length (workers s)).
        holding (snd ((workers s @ [(r, ItemDone)]) ! v)) = Some a"
    if "v < length (workers s)" "holding (snd (workers s ! v)) = Some a" for v a
    using that by (intro exI [of _ v]) (simp add: nth_append)
  ultimately show ?thesis
    unfolding singleRun_alt using S
    by (auto simp: nth_append takenBy_def)
qed

lemma launch_turn:
  assumes sr: "singleRun r s" and l: "workerLoop b r s = (pc, t0)"
  shows "singleRun r (t0\<lparr>workers := workers t0 @ [(r, pc)]\<rparr>)"
    and "batchItems (t0\<lparr>workers := workers t0 @ [(r, pc)]\<rparr>) = batchItems s"
    and "failureHints (t0\<lparr>workers := workers t0 @ [(r, pc)]\<rparr>) + failedCount s
           = failureHints s + failedCount (t0\<lparr>workers := workers t0 @ [(r, pc)]\<rparr>)"
proof -
  let ?p = "s\<lparr>workers := workers s @ [(r, ItemDone)]\<rparr>"
  let ?w = "length (workers s)"
  let ?t = "t0\<lparr>workers := workers t0 @ [(r, pc)]\<rparr>"
  have p: "singleRun r ?p" using sr by (rule singleRun_add_worker)
  have w: "?w < length (workers ?p)" "workers ?p ! ?w = (r, ItemDone)" by simp_all
  have lp: "workerLoop b r ?p = (pc, t0\<lparr>workers := workers s @ [(r, ItemDone)]\<rparr>)"
    using l by (rule workerLoop_workers)
  have t: "?t = setWorker ?w r pc (t0\<lparr>workers := workers s @ [(r, ItemDone)]\<rparr>)"
    using workerLoop_keeps_workers [OF l] by (simp add: setWorker_def)
  note L = singleRun_loop_turn [OF p w lp t]
  show "singleRun r ?t" by (rule L(1))
  show "batchItems ?t = batchItems s" using L(2) by simp
  show "failureHints ?t + failedCount s = failureHints s + failedCount ?t"
    using L(3) by (simp add: failureHints_def)
qed

lemma singleRun_new_cursor:
  assumes wf: "wellFormed s" and q: "quiescent s"
    and c: "processedCount s = 0" "failedCount s = 0"
  shows "singleRun (length (cursors s)) (s\<lparr>cursors := cursors s @ [0]\<rparr>)"
proof -
  note W = wf [unfolded wellFormed_alt]
  have ex: "snd (workers s ! v) = Exited" if "v < length (workers s)" for v
    using q that by (simp add: quiescent_def list_all_length)
  have "filter (\<lambda>w. holding (snd w) \<noteq> None) (workers s) = []"
    using q by (auto simp: quiescent_def list_all_iff filter_empty_conv)
  then have inf: "inFlight (s\<lparr>cursors := cursors s @ [0]\<rparr>) = 0"
    by (simp add: inFlight_def)
  have "filter (\<lambda>p. fst p = length (cursors s)) (started s) = []"
    using W by (auto simp: filter_empty_conv)
  then have tk: "takenBy (length (cursors s)) (s\<lparr>cursors := cursors s @ [0]\<rparr>) = []"
    by (simp add: takenBy_def)
  have wf': "wellFormed (s\<lparr>cursors := cursors s @ [0]\<rparr>)"
    using W by (fastforce simp: wellFormed_alt)
  show ?thesis
    unfolding singleRun_alt using wf' inf tk c ex W
    by (auto simp: nth_append)
qed

lemma singleRun_launchWorkers:
  assumes wf: "wellFormed s" and q: "quiescent s"
    and c: "processedCount s = 0" "failedCount s = 0"
  shows "singleRun (length (cursors s)) (launchWorkers bs s)"
    and "batchItems (launchWorkers bs s) = batchItems s"
    and "failureHints (launchWorkers bs s) = failureHints s + failedCount (launchWorkers bs s)"
proof -
  let ?r = "length (cursors s)"
  let ?s0 = "s\<lparr>cursors := cursors s @ [0]\<rparr>"
  obtain pc1 s1 where l1: "workerLoop (fst bs) ?r ?s0 = (pc1, s1)"
    by (cases "workerLoop (fst bs) ?r ?s0")
  let ?s2 = "s1\<lparr>workers := workers s1 @ [(?r, pc1)]\<rparr>"
  obtain pc2 s3 where l2: "workerLoop (snd bs) ?r ?s2 = (pc2, s3)"
    by (cases "workerLoop (snd bs) ?r ?s2")
  let ?s4 = "s3\<lparr>workers := workers s3 @ [(?r, pc2)]\<rparr>"
  have eq: "launchWorkers bs s = ?s4"
    using l1 l2 by (simp add: launchWorkers_def Let_def)
  note A = singleRun_new_cursor [OF wf q c]
  note B = launch_turn [OF A l1]
  note C = launch_turn [OF B(1) l2]
  show "singleRun ?r (launchWorkers bs s)" unfolding eq by (rule C(1))
  show "batchItems (launchWorkers bs s) = batchItems s"
    unfolding eq using B(2) C(2) by simp
  show "failureHints (launchWorkers bs s) = failureHints s + failedCount (launchWorkers bs s)"
    unfolding eq using B(3) C(3) c by (simp add: failureHints_def)
qed

lemma quiescent_workers: "workers t = workers s \<Longrightarrow> quiescent t = quiescent s"
  by (simp add: quiescent_def)

lemma failureHints_statusLog: "statusLog t = statusLog s \<Longrightarrow> failureHints t = failureHints s"
  by (simp add: failureHints_def)

text \<open>
  The two ways a launch comes about: a change of quality or format on a batch that is
  not empty, or an admitted batch of files followed by the alpha maps.
\<close>

lemma launch_singleRun:
  assumes wf: "wellFormed s0" and q: "quiescent s0"
    and launch: "launch = [EvReprocess True bs] \<and> batchItems s0 \<noteq> []
       \<or> launch = [EvHandleFiles files, EvAlphaMaps True bs]
         \<and> 1 \<le> length (filter isSupportedImageFile files)
         \<and> length (filter isSupportedImageFile files) \<le> 10"
    and s1: "run launch s0 = Some s1"
  shows "singleRun (length (cursors s0)) s1
       \<and> failureHints s1 = failureHints s0 + failedCount s1"
  using launch
proof (elim disjE conjE)
  assume l: "launch = [EvReprocess True bs]" and ne: "batchItems s0 \<noteq> []"
  let ?p = "reprocessReset s0"
  have eq: "s1 = launchWorkers bs ?p"
    using s1 l ne by (simp add: reprocessCurrentBatch_def)
  have p: "wellFormed ?p" "quiescent ?p" "processedCount ?p = 0" "failedCount ?p = 0"
    "length (cursors ?p) = length (cursors s0)" "failureHints ?p = failureHints s0"
    using wf q wf_reprocessReset [OF wf]
      quiescent_workers [of ?p s0] failureHints_statusLog [of ?p s0]
    by (simp_all add: reprocessReset_frame)
  show ?thesis
    using singleRun_launchWorkers [OF p(1-4), of bs] p(5,6) unfolding eq by simp
next
  assume l: "launch = [EvHandleFiles files, EvAlphaMaps True bs]"
    and n: "1 \<le> length (filter isSupportedImageFile files)"
      "length (filter isSupportedImageFile files) \<le> 10"
  let ?only = "filter isSupportedImageFile files"
  let ?a = "handleFiles files s0"
  let ?p = "?a\<lparr>pendingAlpha := pendingAlpha ?a - 1\<rparr>"
  have ne: "?only \<noteq> []" "\<not> 10 < length ?only" using n by auto
  have a: "workers ?a = workers s0" "processedCount ?a = 0" "failedCount ?a = 0"
    "cursors ?a = cursors s0" "pendingAlpha ?a = pendingAlpha s0 + 1"
    "statusLog ?a = statusLog s0 @ [(MsgCleared, InfoStatus), (MsgCleared, InfoStatus)]"
    using ne by (simp_all add: handleFiles_def Let_def setStatus_def resetUI_frame)
  have eq: "s1 = launchWorkers bs ?p"
    using s1 l a(5) by (simp add: alphaMapsSettled_def Let_def)
  have p: "wellFormed ?p" "quiescent ?p" "processedCount ?p = 0" "failedCount ?p = 0"
    "length (cursors ?p) = length (cursors s0)" "failureHints ?p = failureHints s0"
    using q wf_handleFiles [OF wf, of files] a
    by (simp_all add: quiescent_def failureHints_def)
  show ?thesis
    using singleRun_launchWorkers [OF p(1-4), of bs] p(5,6) unfolding eq by simp
qed

lemma worker_runs_step:
  assumes "workerEvent e" "step e s = Some t"
  shows "map fst (workers t) = map fst (workers s)"
proof (cases e)
  case (EvDecoded w out b)
  then show ?thesis
    using assms
    by (auto simp: decoded_def sched_defs Let_def map_update split_def
        split: if_splits prod.splits workerPc.splits option.splits
        intro!: nth_equalityI simp: nth_list_update)
next
  case (EvEncoded w out)
  then show ?thesis
    using assms
    by (auto simp: encoded_def sched_defs Let_def map_update split_def
        split: if_splits prod.splits workerPc.splits option.splits
        intro!: nth_equalityI simp: nth_list_update)
next
  case (EvResumed w b)
  then show ?thesis
    using assms
    by (auto simp: resumed_def sched_defs Let_def map_update split_def
        split: if_splits prod.splits workerPc.splits option.splits
        intro!: nth_equalityI simp: nth_list_update)
qed (use assms in simp_all)

lemma worker_runs_run:
  assumes "list_all workerEvent es" "run es s = Some t"
  shows "map fst (workers t) = map fst (workers s)"
  using assms
proof (induction es arbitrary: s)
  case Nil
  then show ?case by simp
next
  case (Cons e es)
  from Cons.prems obtain u where u: "step e s = Some u" "run es u = Some t"
    by (auto split: option.splits)
  have "map fst (workers u) = map fst (workers s)"
    using worker_runs_step [OF _ u(1)] Cons.prems by simp
  moreover have "map fst (workers t) = map fst (workers u)"
    using Cons.IH [OF _ u(2)] Cons.prems by simp
  ultimately show ?case by simp
qed

lemma launchWorkers_runs:
  "map fst (workers (launchWorkers bs s)) = map fst (workers s) @ [length (cursors s), length (cursors s)]"
proof -
  let ?r = "length (cursors s)"
  let ?s0 = "s\<lparr>cursors := cursors s @ [0]\<rparr>"
  obtain pc1 s1 where l1: "workerLoop (fst bs) ?r ?s0 = (pc1, s1)"
    by (cases "workerLoop (fst bs) ?r ?s0")
  let ?s2 = "s1\<lparr>workers := workers s1 @ [(?r, pc1)]\<rparr>"
  obtain pc2 s3 where l2: "workerLoop (snd bs) ?r ?s2 = (pc2, s3)"
    by (cases "workerLoop (snd bs) ?r ?s2")
  have "launchWorkers bs s = s3\<lparr>workers := workers s3 @ [(?r, pc2)]\<rparr>"
    using l1 l2 by (simp add: launchWorkers_def Let_def)
  then show ?thesis
    using workerLoop_keeps_workers [OF l1] workerLoop_keeps_workers [OF l2] by simp
qed

lemma launch_runs:
  assumes launch: "launch = [EvReprocess True bs] \<and> batchItems s0 \<noteq> []
       \<or> launch = [EvHandleFiles files, EvAlphaMaps True bs]
         \<and> 1 \<le> length (filter isSupportedImageFile files)
         \<and> length (filter isSupportedImageFile files) \<le> 10"
    and s1: "run launch s0 = Some s1"
  shows "map fst (workers s1) = map fst (workers s0) @ [length (cursors s0), length (cursors s0)]"
  using launch
proof (elim disjE conjE)
  assume l: "launch = [EvReprocess True bs]" and ne: "batchItems s0 \<noteq> []"
  have "s1 = launchWorkers bs (reprocessReset s0)"
    using s1 l ne by (simp add: reprocessCurrentBatch_def)
  then show ?thesis by (simp add: launchWorkers_runs reprocessReset_frame)
next
  assume l: "launch = [EvHandleFiles files, EvAlphaMaps True bs]"
    and n: "1 \<le> length (filter isSupportedImageFile files)"
      "length (filter isSupportedImageFile files) \<le> 10"
  let ?only = "filter isSupportedImageFile files"
  let ?a = "handleFiles files s0"
  have ne: "?only \<noteq> []" "\<not> 10 < length ?only" using n by auto
  have a: "workers ?a = workers s0" "cursors ?a = cursors s0" "pendingAlpha ?a = pendingAlpha s0 + 1"
    using ne by (simp_all add: handleFiles_def Let_def setStatus_def resetUI_frame)
  have "s1 = launchWorkers bs (?a\<lparr>pendingAlpha := pendingAlpha ?a - 1\<rparr>)"
    using s1 l a(3) by (simp add: alphaMapsSettled_def Let_def)
  then show ?thesis using a by (simp add: launchWorkers_runs)
qed

lemma singleRun_quiescent_all_taken:
  assumes sr: "singleRun r s" and q: "quiescent s" and w: "r \<in> set (map fst (workers s))"
  shows "cursors s ! r = length (batchItems s)"
proof -
  from w obtain v where v: "v < length (workers s)" "fst (workers s ! v) = r"
    by (auto simp: in_set_conv_nth)
  have "snd (workers s ! v) = Exited"
    using q v(1) by (simp add: quiescent_def list_all_length)
  then show ?thesis using sr v by (auto simp: singleRun_alt)
qed

section \<open>Batch scheduler: a launch on its own comes to an end\<close>

lemma weight_update:
  fixes f :: "'a \<Rightarrow> nat"
  assumes "w < length ws"
  shows "sum_list (map f (ws[w := x])) + f (ws ! w) = sum_list (map f ws) + f x"
  using assms by (induction ws arbitrary: w) (auto split: nat.splits)

lemma workLeft_update:
  assumes w: "w < length (workers s)" "workers s ! w = (r', pc)"
    and t: "workers t = (workers s)[w := (r', pc')]"
      "batchItems t = batchItems s" "cursors t = cursors s"
  shows "workLeft r t + pcWeight pc = workLeft r s + pcWeight pc'"
  using weight_update [OF w(1), of "\<lambda>w. pcWeight (snd w)" "(r', pc')"] w(2) t
  by (simp add: workLeft_def)

lemma workLeft_decoded:
  assumes d: "decoded w outcome b s = Some t"
  shows "workLeft r t < workLeft r s"
proof -
  from d obtain r' a where w: "w < length (workers s)" "workers s ! w = (r', AwaitDecode a)"
    by (auto simp: decoded_def split: if_splits prod.splits workerPc.splits)
  from d w obtain pc where t: "workers t = (workers s)[w := (r', pc)]"
      "batchItems t = batchItems s" "cursors t = cursors s" "pc = ItemDone \<or> pc = AwaitEncode a"
    by (auto simp: decoded_def sched_defs Let_def split: option.splits if_splits)
  from workLeft_update [OF w t(1-3), of r] t(4) show ?thesis by auto
qed

lemma workLeft_encoded:
  assumes d: "encoded w outcome s = Some t"
  shows "workLeft r t < workLeft r s"
proof -
  from d obtain r' a where w: "w < length (workers s)" "workers s ! w = (r', AwaitEncode a)"
    by (auto simp: encoded_def split: if_splits prod.splits workerPc.splits)
  from d w have t: "workers t = (workers s)[w := (r', ItemDone)]"
      "batchItems t = batchItems s" "cursors t = cursors s"
    by (auto simp: encoded_def sched_defs Let_def split: option.splits if_splits)
  from workLeft_update [OF w t(1-3), of r] show ?thesis by auto
qed

lemma pcWeight_holding: "holding pc = Some a \<Longrightarrow> pcWeight pc \<le> 3"
  by (cases pc) simp_all

lemma workLeft_resumed:
  assumes sr: "singleRun r s" and d: "resumed w b s = Some t"
  shows "workLeft r t < workLeft r s"
proof -
  from d obtain r' where w: "w < length (workers s)" "workers s ! w = (r', ItemDone)"
    by (auto simp: resumed_def split: if_splits prod.splits workerPc.splits)
  have r': "r' = r" using singleRun_worker [OF sr w] by simp
  have r: "r < length (cursors s)" using sr by (simp add: singleRun_def)
  obtain pc t0 where l: "workerLoop b r s = (pc, t0)" by (cases "workerLoop b r s")
  have t: "t = setWorker w r pc t0"
    using d w l r' by (simp add: resumed_def)
  from l show ?thesis
  proof (cases rule: workerLoop_cases)
    case exit
    have "workers t = (workers s)[w := (r, Exited)]" "batchItems t = batchItems s"
      "cursors t = cursors s"
      using t exit by (simp_all add: setWorker_def)
    from workLeft_update [OF w(1) w(2) [unfolded r'] this, of r] show ?thesis by simp
  next
    case (take a)
    let ?u = "t\<lparr>cursors := cursors s\<rparr>"
    have u: "workers ?u = (workers s)[w := (r, pc)]" "batchItems ?u = batchItems s"
      "cursors ?u = cursors s"
      using t take(4) by (simp_all add: setWorker_def)
    have 1: "workLeft r ?u + 1 = workLeft r s + pcWeight pc"
      using workLeft_update [OF w(1) w(2) [unfolded r'] u, of r] by simp
    have 2: "workLeft r t + 3 = workLeft r ?u"
      using t take(1,4) r by (simp add: workLeft_def setWorker_def)
    from 1 2 pcWeight_holding [OF take(3)] show ?thesis by linarith
  next
    case (fail a)
    let ?u = "t\<lparr>cursors := cursors s\<rparr>"
    have u: "workers ?u = (workers s)[w := (r, ItemDone)]" "batchItems ?u = batchItems s"
      "cursors ?u = cursors s"
      using t fail(3,4) by (simp_all add: setWorker_def)
    have 1: "workLeft r ?u + 1 = workLeft r s + 1"
      using workLeft_update [OF w(1) w(2) [unfolded r'] u, of r] by simp
    have 2: "workLeft r t + 3 = workLeft r ?u"
      using t fail(1,4) r by (simp add: workLeft_def setWorker_def)
    from 1 2 show ?thesis by linarith
  qed
qed

lemma workLeft_step:
  assumes "singleRun r s" "workerEvent e" "step e s = Some t"
  shows "workLeft r t < workLeft r s"
proof (cases e)
  case (EvDecoded w out b)
  then show ?thesis using assms workLeft_decoded [of w out b s t r] by simp
next
  case (EvEncoded w out)
  then show ?thesis using assms workLeft_encoded [of w out s t r] by simp
next
  case (EvResumed w b)
  then show ?thesis using assms workLeft_resumed [of r s w b t] by simp
qed (use assms in simp_all)

lemma workLeft_run:
  assumes "singleRun r s" "list_all workerEvent es" "run es s = Some t"
  shows "workLeft r t + length es \<le> workLeft r s"
  using assms
proof (induction es arbitrary: s)
  case Nil
  then show ?case by simp
next
  case (Cons e es)
  from Cons.prems obtain u where u: "step e s = Some u" "run es u = Some t"
    by (auto split: option.splits)
  have e: "workerEvent e" "list_all workerEvent es" using Cons.prems by simp_all
  note A = singleRun_step [OF Cons.prems(1) e(1) u(1)]
  note B = workLeft_step [OF Cons.prems(1) e(1) u(1)]
  from A have "singleRun r u" by simp
  from Cons.IH [OF this e(2) u(2)] B show ?case by simp
qed

lemma workLeft_launch_turn:
  assumes r: "r < length (cursors s)" and l: "workerLoop b r s = (pc, t0)"
  shows "workLeft r (t0\<lparr>workers := workers t0 @ [(r, pc)]\<rparr>) \<le> workLeft r s
       \<and> length (cursors t0) = length (cursors s)
       \<and> batchItems t0 = batchItems s"
  using l
proof (cases rule: workerLoop_cases)
  case exit
  then show ?thesis by (simp add: workLeft_def)
next
  case (take a)
  then show ?thesis using pcWeight_holding [OF take(3)] r by (simp add: workLeft_def)
next
  case (fail a)
  then show ?thesis using r by (simp add: workLeft_def)
qed

lemma quiescent_weight:
  assumes "quiescent s"
  shows "sum_list (map (\<lambda>w. pcWeight (snd w)) (workers s)) = 0"
  using assms by (auto simp: quiescent_def list_all_iff)

lemma workLeft_launchWorkers:
  assumes q: "quiescent s"
  shows "workLeft (length (cursors s)) (launchWorkers bs s)
           \<le> 3 * length (batchItems (launchWorkers bs s))"
proof -
  let ?r = "length (cursors s)"
  let ?s0 = "s\<lparr>cursors := cursors s @ [0]\<rparr>"
  obtain pc1 s1 where l1: "workerLoop (fst bs) ?r ?s0 = (pc1, s1)"
    by (cases "workerLoop (fst bs) ?r ?s0")
  let ?s2 = "s1\<lparr>workers := workers s1 @ [(?r, pc1)]\<rparr>"
  obtain pc2 s3 where l2: "workerLoop (snd bs) ?r ?s2 = (pc2, s3)"
    by (cases "workerLoop (snd bs) ?r ?s2")
  have eq: "launchWorkers bs s = s3\<lparr>workers := workers s3 @ [(?r, pc2)]\<rparr>"
    using l1 l2 by (simp add: launchWorkers_def Let_def)
  have r0: "?r < length (cursors ?s0)" by simp
  note A = workLeft_launch_turn [OF r0 l1]
  have r2: "?r < length (cursors ?s2)" using A by simp
  note B = workLeft_launch_turn [OF r2 l2]
  have "workLeft ?r ?s0 = 3 * length (batchItems s)"
    using quiescent_weight [OF q] by (simp add: workLeft_def)
  with A B show ?thesis unfolding eq by simp
qed

lemma workLeft_launch:
  assumes q: "quiescent s0"
    and launch: "launch = [EvReprocess True bs] \<and> batchItems s0 \<noteq> []
       \<or> launch = [EvHandleFiles files, EvAlphaMaps True bs]
         \<and> 1 \<le> length (filter isSupportedImageFile files)
         \<and> length (filter isSupportedImageFile files) \<le> 10"
    and s1: "run launch s0 = Some s1"
  shows "workLeft (length (cursors s0)) s1 \<le> 3 * length (batchItems s1)"
  using launch
proof (elim disjE conjE)
  assume l: "launch = [EvReprocess True bs]" and ne: "batchItems s0 \<noteq> []"
  let ?p = "reprocessReset s0"
  have eq: "s1 = launchWorkers bs ?p"
    using s1 l ne by (simp add: reprocessCurrentBatch_def)
  have p: "quiescent ?p" "length (cursors ?p) = length (cursors s0)"
    using q quiescent_workers [of ?p s0] by (simp_all add: reprocessReset_frame)
  show ?thesis
    using workLeft_launchWorkers [OF p(1), of bs] p(2) unfolding eq by simp
next
  assume l: "launch = [EvHandleFiles files, EvAlphaMaps True bs]"
    and n: "1 \<le> length (filter isSupportedImageFile files)"
      "length (filter isSupportedImageFile files) \<le> 10"
  let ?only = "filter isSupportedImageFile files"
  let ?a = "handleFiles files s0"
  let ?p = "?a\<lparr>pendingAlpha := pendingAlpha ?a - 1\<rparr>"
  have ne: "?only \<noteq> []" "\<not> 10 < length ?only" using n by auto
  have a: "workers ?a = workers s0" "cursors ?a = cursors s0"
    "pendingAlpha ?a = pendingAlpha s0 + 1"
    using ne by (simp_all add: handleFiles_def Let_def setStatus_def resetUI_frame)
  have eq: "s1 = launchWorkers bs ?p"
    using s1 l a(3) by (simp add: alphaMapsSettled_def Let_def)
  have p: "quiescent ?p" "length (cursors ?p) = length (cursors s0)"
    using q a by (simp_all add: quiescent_def)
  show ?thesis
    using workLeft_launchWorkers [OF p(1), of bs] p(2) unfolding eq by simp
qed

lemma worker_can_move:
  assumes w: "w < length (workers s)" "snd (workers s ! w) \<noteq> Exited"
  shows "\<exists>e. workerEvent e \<and> step e s \<noteq> None"
proof (cases "snd (workers s ! w)")
  case (AwaitDecode a)
  then have "step (EvDecoded w None True) s \<noteq> None"
    using w by (cases "workers s ! w") (simp add: decoded_def)
  then show ?thesis using workerEvent.simps(1) by blast
next
  case (AwaitEncode a)
  then have "step (EvEncoded w None) s \<noteq> None"
    using w by (cases "workers s ! w") (simp add: encoded_def)
  then show ?thesis using workerEvent.simps(2) by blast
next
  case ItemDone
  then have "step (EvResumed w True) s \<noteq> None"
    using w by (cases "workers s ! w") (simp add: resumed_def split: prod.splits)
  then show ?thesis using workerEvent.simps(3) by blast
next
  case Exited
  then show ?thesis using w by simp
qed

lemma not_quiescent_can_move:
  assumes "\<not> quiescent s"
  shows "\<exists>e. workerEvent e \<and> step e s \<noteq> None"
proof -
  from assms obtain w where "w < length (workers s)" "snd (workers s ! w) \<noteq> Exited"
    by (auto simp: quiescent_def list_all_length)
  then show ?thesis by (rule worker_can_move)
qed

section \<open>Batch scheduler: properties of a launch on its own\<close>

text \<open>
  C9. Take any state the page can reach in which no worker is in flight, a launch from
  there (a change of quality or format on a batch that is not empty, or an admitted batch
  of files followed by the alpha maps) and any sequence of resumptions of workers after
  it, that is, any interleaving of the two workers at their suspension points. At every
  point the items \<^verbatim>\<open>processOneItem\<close> has been called with by the workers of the launch
  are the items of the batch before the shared cursor, in order; the batch lists no item
  twice, so none is taken twice; and once both workers have returned, the items taken
  are the whole batch: none is skipped. The workers do return: no interleaving has more
  than three resumptions for each item of the batch, and as long as a worker has not
  returned there is a resumption that can run.
\<close>

theorem workers_take_each_item_once:
  assumes reach: "run es0 pageLoaded = Some s0" and q: "quiescent s0"
    and launch: "launch = [EvReprocess True bs] \<and> batchItems s0 \<noteq> []
       \<or> launch = [EvHandleFiles files, EvAlphaMaps True bs]
         \<and> 1 \<le> length (filter isSupportedImageFile files)
         \<and> length (filter isSupportedImageFile files) \<le> 10"
    and s1: "run launch s0 = Some s1"
    and es: "list_all workerEvent es" and s2: "run es s1 = Some s2"
  shows "takenBy (length (cursors s0)) s2 = take (cursors s2 ! length (cursors s0)) (batchItems s2)
       \<and> distinct (batchItems s2)
       \<and> batchItems s2 = batchItems s1
       \<and> (quiescent s2 \<longrightarrow> takenBy (length (cursors s0)) s2 = batchItems s2)
       \<and> length es \<le> 3 * length (batchItems s1)
       \<and> (\<not> quiescent s2 \<longrightarrow> (\<exists>e. workerEvent e \<and> step e s2 \<noteq> None))"
proof -
  let ?r = "length (cursors s0)"
  have wf: "wellFormed s0" using wf_run [OF wf_pageLoaded reach] .
  have sr1: "singleRun ?r s1" using launch_singleRun [OF wf q launch s1] by simp
  have sr2: "singleRun ?r s2" "batchItems s2 = batchItems s1"
    using singleRun_run [OF sr1 es s2] by simp_all
  have tk: "takenBy ?r s2 = take (cursors s2 ! ?r) (batchItems s2)"
    using sr2(1) by (simp add: singleRun_def)
  have d: "distinct (batchItems s2)"
    using sr2(1) by (simp add: singleRun_def wellFormed_def)
  have "?r \<in> set (map fst (workers s2))"
    using worker_runs_run [OF es s2] launch_runs [OF launch s1] by simp
  then have a: "quiescent s2 \<longrightarrow> cursors s2 ! ?r = length (batchItems s2)"
    using singleRun_quiescent_all_taken [OF sr2(1)] by blast
  have n: "length es \<le> 3 * length (batchItems s1)"
    using workLeft_run [OF sr1 es s2] workLeft_launch [OF q launch s1] by linarith
  have p: "\<not> quiescent s2 \<longrightarrow> (\<exists>e. workerEvent e \<and> step e s2 \<noteq> None)"
    using not_quiescent_can_move [of s2] by blast
  from a tk have "quiescent s2 \<longrightarrow> takenBy ?r s2 = batchItems s2" by simp
  with tk d sr2(2) n p show ?thesis by blast
qed

text \<open>
  The theorem at a batch of three files: the second worker fails on its first item and
  takes the third, the first worker completes its item and returns, the third item fails
  after decoding. After the first two of these resumptions both workers are still
  running.
\<close>

theorem workers_take_each_item_once_witness:
  "quiescent pageLoaded
   \<and> quiescent (the (run
        ([EvHandleFiles (replicate 3 \<lparr>file_name = ''a.png'', file_type = ''image/png'', file_size = 1\<rparr>),
          EvAlphaMaps True (True, True)]
         @ [EvDecoded 1 None True, EvResumed 1 True,
            EvDecoded 0 (Some \<lparr>img_width = 1, img_height = 1, img_data = [1, 2, 3, 255]\<rparr>) True,
            EvEncoded 0 (Some (Blob [] ''image/png'')), EvResumed 0 True,
            EvDecoded 1 (Some \<lparr>img_width = 1, img_height = 1, img_data = [1, 2, 3, 255]\<rparr>) False,
            EvResumed 1 True]) pageLoaded))
   \<and> takenBy 0 (the (run
        ([EvHandleFiles (replicate 3 \<lparr>file_name = ''a.png'', file_type = ''image/png'', file_size = 1\<rparr>),
          EvAlphaMaps True (True, True)]
         @ [EvDecoded 1 None True, EvResumed 1 True,
            EvDecoded 0 (Some \<lparr>img_width = 1, img_height = 1, img_data = [1, 2, 3, 255]\<rparr>) True,
            EvEncoded 0 (Some (Blob [] ''image/png'')), EvResumed 0 True,
            EvDecoded 1 (Some \<lparr>img_width = 1, img_height = 1, img_data = [1, 2, 3, 255]\<rparr>) False,
            EvResumed 1 True]) pageLoaded)) = [0, 1, 2]
   \<and> \<not> quiescent (the (run
        ([EvHandleFiles (replicate 3 \<lparr>file_name = ''a.png'', file_type = ''image/png'', file_size = 1\<rparr>),
          EvAlphaMaps True (True, True)]
         @ [EvDecoded 1 None True, EvResumed 1 True]) pageLoaded))
   \<and> (\<exists>e. workerEvent e
          \<and> step e (the (run
              ([EvHandleFiles (replicate 3 \<lparr>file_name = ''a.png'', file_type = ''image/png'', file_size = 1\<rparr>),
                EvAlphaMaps True (True, True)]
               @ [EvDecoded 1 None True, EvResumed 1 True]) pageLoaded)) \<noteq> None)"
proof -
  let ?files = "replicate 3 \<lparr>file_name = ''a.png'', file_type = ''image/png'', file_size = 1\<rparr>"
  let ?img = "\<lparr>img_width = 1, img_height = 1, img_data = [1, 2, 3, 255]\<rparr>"
  let ?L = "[EvHandleFiles ?files, EvAlphaMaps True (True, True)]"
  let ?E = "[EvDecoded 1 None True, EvResumed 1 True, EvDecoded 0 (Some ?img) True,
            EvEncoded 0 (Some (Blob [] ''image/png'')), EvResumed 0 True,
            EvDecoded 1 (Some ?img) False, EvResumed 1 True]"
  let ?F = "[EvDecoded 1 None True, EvResumed 1 True]"
  let ?s1 = "the (run ?L pageLoaded)"
  let ?s2 = "the (run (?L @ ?E) pageLoaded)"
  let ?s3 = "the (run (?L @ ?F) pageLoaded)"
  have h1: "run [] pageLoaded = Some pageLoaded" by simp
  have h2: "quiescent pageLoaded" by code_simp
  have h3: "?L = [EvReprocess True (True, True)] \<and> batchItems pageLoaded \<noteq> []
       \<or> ?L = [EvHandleFiles ?files, EvAlphaMaps True (True, True)]
         \<and> 1 \<le> length (filter isSupportedImageFile ?files)
         \<and> length (filter isSupportedImageFile ?files) \<le> 10"
    by code_simp
  have h4: "run ?L pageLoaded = Some ?s1" by code_simp
  have h5: "list_all workerEvent ?E" by simp
  have h6: "run ?E ?s1 = Some ?s2" by code_simp
  have h7: "list_all workerEvent ?F" by simp
  have h8: "run ?F ?s1 = Some ?s3" by code_simp
  have c: "length (cursors pageLoaded) = 0" "quiescent ?s2" "batchItems ?s2 = [0, 1, 2]"
    "\<not> quiescent ?s3"
    by code_simp+
  note T = workers_take_each_item_once [OF h1 h2 h3 h4 h5 h6]
  note U = workers_take_each_item_once [OF h1 h2 h3 h4 h7 h8]
  have 1: "takenBy 0 ?s2 = [0, 1, 2]" using T c by metis
  have 2: "\<exists>e. workerEvent e \<and> step e ?s3 \<noteq> None" using U c(4) by blast
  from 1 2 show ?thesis using h2 c(2,4) by blast
qed

lemma failing_decode:
  assumes wf: "wellFormed s" and w: "w < length (workers s)" "workers s ! w = (r, AwaitDecode a)"
  shows "\<exists>t. decoded w None b s = Some t
           \<and> item_status (itemHeap t ! a) = StatusError
           \<and> workers t ! w = (r, ItemDone)
           \<and> failedCount t = failedCount s + 1
           \<and> failureHints t = failureHints s + 1"
  using wf_worker(2) [OF wf w] w
  by (simp add: decoded_def sched_defs failureHints_def)

lemma failing_pixels:
  assumes wf: "wellFormed s" and w: "w < length (workers s)" "workers s ! w = (r, AwaitDecode a)"
  shows "\<exists>t. decoded w (Some img) False s = Some t
           \<and> item_status (itemHeap t ! a) = StatusError
           \<and> workers t ! w = (r, ItemDone)
           \<and> failedCount t = failedCount s + 1
           \<and> failureHints t = failureHints s + 1"
  using wf_worker(2) [OF wf w] w
  by (simp add: decoded_def sched_defs failureHints_def)

lemma failing_encode:
  assumes wf: "wellFormed s" and w: "w < length (workers s)" "workers s ! w = (r, AwaitEncode a)"
  shows "\<exists>t. encoded w None s = Some t
           \<and> item_status (itemHeap t ! a) = StatusError
           \<and> workers t ! w = (r, ItemDone)
           \<and> failedCount t = failedCount s + 1
           \<and> failureHints t = failureHints s + 1"
  using wf_worker(2) [OF wf w] w
  by (simp add: encoded_def sched_defs failureHints_def)

text \<open>
  C6, as amended. In a launch on its own, at every point of every interleaving: a worker
  whose decoding, pixel stage or export fails marks its item as failed, raises the hint
  and goes on with its loop; the hint "Some images failed" has been raised once for each
  failed item (the number of hints raised since the launch is \<^verbatim>\<open>failedCount\<close>); and once
  both workers have returned, every item of the batch has been taken, each is completed
  or failed, and the two counters add up to the size of the batch.
\<close>

theorem failed_item_does_not_stop_batch:
  assumes reach: "run es0 pageLoaded = Some s0" and q: "quiescent s0"
    and launch: "launch = [EvReprocess True bs] \<and> batchItems s0 \<noteq> []
       \<or> launch = [EvHandleFiles files, EvAlphaMaps True bs]
         \<and> 1 \<le> length (filter isSupportedImageFile files)
         \<and> length (filter isSupportedImageFile files) \<le> 10"
    and s1: "run launch s0 = Some s1"
    and es: "list_all workerEvent es" and s2: "run es s1 = Some s2"
  shows "(\<forall>w r a. w < length (workers s2) \<and> workers s2 ! w = (r, AwaitDecode a) \<longrightarrow>
            (\<forall>outcome. outcome = None \<or> \<not> pixelsOk \<longrightarrow>
              (\<exists>t. step (EvDecoded w outcome pixelsOk) s2 = Some t
                 \<and> item_status (itemHeap t ! a) = StatusError
                 \<and> workers t ! w = (r, ItemDone)
                 \<and> failureHints t = failureHints s2 + 1)))
       \<and> (\<forall>w r a. w < length (workers s2) \<and> workers s2 ! w = (r, AwaitEncode a) \<longrightarrow>
            (\<exists>t. step (EvEncoded w None) s2 = Some t
               \<and> item_status (itemHeap t ! a) = StatusError
               \<and> workers t ! w = (r, ItemDone)
               \<and> failureHints t = failureHints s2 + 1))
       \<and> failureHints s2 = failureHints s0 + failedCount s2
       \<and> (quiescent s2 \<longrightarrow>
            takenBy (length (cursors s0)) s2 = batchItems s2
            \<and> list_all (\<lambda>a. item_status (itemHeap s2 ! a) = StatusCompleted
                             \<or> item_status (itemHeap s2 ! a) = StatusError) (batchItems s2)
            \<and> processedCount s2 + failedCount s2 = length (batchItems s2))"
proof -
  let ?r = "length (cursors s0)"
  have wf: "wellFormed s0" using wf_run [OF wf_pageLoaded reach] .
  note L = launch_singleRun [OF wf q launch s1]
  have sr1: "singleRun ?r s1" using L by simp
  note R = singleRun_run [OF sr1 es s2]
  have sr2: "singleRun ?r s2" using R by simp
  have wf2: "wellFormed s2" using sr2 by (simp add: singleRun_def)
  have hints: "failureHints s2 = failureHints s0 + failedCount s2" using L R by simp
  have dec: "\<exists>t. step (EvDecoded w outcome pixelsOk) s2 = Some t
                 \<and> item_status (itemHeap t ! a) = StatusError
                 \<and> workers t ! w = (r, ItemDone)
                 \<and> failureHints t = failureHints s2 + 1"
    if "w < length (workers s2)" "workers s2 ! w = (r, AwaitDecode a)"
      "outcome = None \<or> \<not> pixelsOk" for w r a outcome
  proof (cases outcome)
    case None
    then show ?thesis using failing_decode [OF wf2 that(1,2), of pixelsOk] by auto
  next
    case (Some img)
    then show ?thesis using failing_pixels [OF wf2 that(1,2), of img] that(3) by auto
  qed
  have enc: "\<exists>t. step (EvEncoded w None) s2 = Some t
               \<and> item_status (itemHeap t ! a) = StatusError
               \<and> workers t ! w = (r, ItemDone)
               \<and> failureHints t = failureHints s2 + 1"
    if "w < length (workers s2)" "workers s2 ! w = (r, AwaitEncode a)" for w r a
    using failing_encode [OF wf2 that] by auto
  have fin: "takenBy ?r s2 = batchItems s2
            \<and> list_all (\<lambda>a. item_status (itemHeap s2 ! a) = StatusCompleted
                             \<or> item_status (itemHeap s2 ! a) = StatusError) (batchItems s2)
            \<and> processedCount s2 + failedCount s2 = length (batchItems s2)"
    if qs: "quiescent s2"
  proof -
    have "?r \<in> set (map fst (workers s2))"
      using worker_runs_run [OF es s2] launch_runs [OF launch s1] by simp
    then have c: "cursors s2 ! ?r = length (batchItems s2)"
      using singleRun_quiescent_all_taken [OF sr2 qs] by blast
    have nohold: "\<not> list_ex (\<lambda>w. holding (snd w) = Some a) (workers s2)" for a
      using qs by (auto simp: quiescent_def list_all_iff list_ex_iff)
    have "inFlight s2 = 0"
      using qs by (auto simp: inFlight_def quiescent_def list_all_iff filter_empty_conv)
    then show ?thesis
      using sr2 c nohold by (simp add: singleRun_def)
  qed
  show ?thesis using dec enc hints fin by blast
qed

text \<open>The theorem at the batch of three files of which one is completed and two fail.\<close>

theorem failed_item_does_not_stop_batch_witness:
  "quiescent pageLoaded
   \<and> quiescent (the (run
        ([EvHandleFiles (replicate 3 \<lparr>file_name = ''a.png'', file_type = ''image/png'', file_size = 1\<rparr>),
          EvAlphaMaps True (True, True)]
         @ [EvDecoded 1 None True, EvResumed 1 True,
            EvDecoded 0 (Some \<lparr>img_width = 1, img_height = 1, img_data = [1, 2, 3, 255]\<rparr>) True,
            EvEncoded 0 (Some (Blob [] ''image/png'')), EvResumed 0 True,
            EvDecoded 1 (Some \<lparr>img_width = 1, img_height = 1, img_data = [1, 2, 3, 255]\<rparr>) False,
            EvResumed 1 True]) pageLoaded))
   \<and> processedCount (the (run
        ([EvHandleFiles (replicate 3 \<lparr>file_name = ''a.png'', file_type = ''image/png'', file_size = 1\<rparr>),
          EvAlphaMaps True (True, True)]
         @ [EvDecoded 1 None True, EvResumed 1 True,
            EvDecoded 0 (Some \<lparr>img_width = 1, img_height = 1, img_data = [1, 2, 3, 255]\<rparr>) True,
            EvEncoded 0 (Some (Blob [] ''image/png'')), EvResumed 0 True,
            EvDecoded 1 (Some \<lparr>img_width = 1, img_height = 1, img_data = [1, 2, 3, 255]\<rparr>) False,
            EvResumed 1 True]) pageLoaded))
     + failedCount (the (run
        ([EvHandleFiles (replicate 3 \<lparr>file_name = ''a.png'', file_type = ''image/png'', file_size = 1\<rparr>),
          EvAlphaMaps True (True, True)]
         @ [EvDecoded 1 None True, EvResumed 1 True,
            EvDecoded 0 (Some \<lparr>img_width = 1, img_height = 1, img_data = [1, 2, 3, 255]\<rparr>) True,
            EvEncoded 0 (Some (Blob [] ''image/png'')), EvResumed 0 True,
            EvDecoded 1 (Some \<lparr>img_width = 1, img_height = 1, img_data = [1, 2, 3, 255]\<rparr>) False,
            EvResumed 1 True]) pageLoaded)) = 3"
proof -
  let ?files = "replicate 3 \<lparr>file_name = ''a.png'', file_type = ''image/png'', file_size = 1\<rparr>"
  let ?img = "\<lparr>img_width = 1, img_height = 1, img_data = [1, 2, 3, 255]\<rparr>"
  let ?L = "[EvHandleFiles ?files, EvAlphaMaps True (True, True)]"
  let ?E = "[EvDecoded 1 None True, EvResumed 1 True, EvDecoded 0 (Some ?img) True,
            EvEncoded 0 (Some (Blob [] ''image/png'')), EvResumed 0 True,
            EvDecoded 1 (Some ?img) False, EvResumed 1 True]"
  let ?s1 = "the (run ?L pageLoaded)"
  let ?s2 = "the (run (?L @ ?E) pageLoaded)"
  have h1: "run [] pageLoaded = Some pageLoaded" by simp
  have h2: "quiescent pageLoaded" by code_simp
  have h3: "?L = [EvReprocess True (True, True)] \<and> batchItems pageLoaded \<noteq> []
       \<or> ?L = [EvHandleFiles ?files, EvAlphaMaps True (True, True)]
         \<and> 1 \<le> length (filter isSupportedImageFile ?files)
         \<and> length (filter isSupportedImageFile ?files) \<le> 10"
    by code_simp
  have h4: "run ?L pageLoaded = Some ?s1" by code_simp
  have h5: "list_all workerEvent ?E" by simp
  have h6: "run ?E ?s1 = Some ?s2" by code_simp
  have c: "quiescent ?s2" "length (batchItems ?s2) = 3"
    by code_simp+
  note T = failed_item_does_not_stop_batch [OF h1 h2 h3 h4 h5 h6]
  have "processedCount ?s2 + failedCount ?s2 = 3" using T c by metis
  then show ?thesis using h2 c(1) by blast
qed

text \<open>
  C6 as stated fails in its last part: in one run of a batch of two files that both fail
  to decode, the hint is raised twice, once for each failed item.
\<close>

theorem failure_hint_per_failed_item_counterexample:
  "run [EvHandleFiles (replicate 2 \<lparr>file_name = ''a.png'', file_type = ''image/png'', file_size = 1\<rparr>),
        EvAlphaMaps True (True, True),
        EvDecoded 0 None True, EvDecoded 1 None True, EvResumed 0 True, EvResumed 1 True]
       pageLoaded \<noteq> None
   \<and> quiescent (the (run
       [EvHandleFiles (replicate 2 \<lparr>file_name = ''a.png'', file_type = ''image/png'', file_size = 1\<rparr>),
        EvAlphaMaps True (True, True),
        EvDecoded 0 None True, EvDecoded 1 None True, EvResumed 0 True, EvResumed 1 True]
       pageLoaded))
   \<and> statusLog (the (run
       [EvHandleFiles (replicate 2 \<lparr>file_name = ''a.png'', file_type = ''image/png'', file_size = 1\<rparr>),
        EvAlphaMaps True (True, True),
        EvDecoded 0 None True, EvDecoded 1 None True, EvResumed 0 True, EvResumed 1 True]
       pageLoaded))
     = [(MsgCleared, InfoStatus), (MsgCleared, InfoStatus), (MsgCleared, InfoStatus),
        (MsgSomeFailed, ErrorStatus), (MsgSomeFailed, ErrorStatus)]
   \<and> failureHints (the (run
       [EvHandleFiles (replicate 2 \<lparr>file_name = ''a.png'', file_type = ''image/png'', file_size = 1\<rparr>),
        EvAlphaMaps True (True, True),
        EvDecoded 0 None True, EvDecoded 1 None True, EvResumed 0 True, EvResumed 1 True]
       pageLoaded)) = 2"
  by code_simp

section \<open>Batch scheduler: decoded images and blob URLs\<close>






















section \<open>Batch scheduler: a launch while workers are in flight\<close>

lemma reprocessItem_item:
  assumes "x < length (itemHeap u)"
  shows "item_status (itemHeap (reprocessItem x u) ! x) = StatusQueued
       \<and> resultUrl (itemHeap (reprocessItem x u) ! x) = None
       \<and> resultBlob (itemHeap (reprocessItem x u) ! x) = None"
    and "a \<noteq> x \<Longrightarrow> itemHeap (reprocessItem x u) ! a = itemHeap u ! a"
  using assms
  by (simp_all add: reprocessItem_def updateItem_def revokeResultUrl_def Let_def
        split: option.splits)

lemma fold_reprocessItem_item:
  assumes "\<forall>x \<in> set xs. x < length (itemHeap s)" "a \<in> set xs"
  shows "item_status (itemHeap (fold reprocessItem xs s) ! a) = StatusQueued
       \<and> resultUrl (itemHeap (fold reprocessItem xs s) ! a) = None
       \<and> resultBlob (itemHeap (fold reprocessItem xs s) ! a) = None"
  using assms
proof (induction xs arbitrary: s rule: rev_induct)
  case Nil
  then show ?case by simp
next
  case (snoc x xs)
  let ?u = "fold reprocessItem xs s"
  have len: "length (itemHeap ?u) = length (itemHeap s)" by (simp add: fold_reprocessItem_frame)
  have x: "x < length (itemHeap ?u)" using snoc.prems len by simp
  show ?case
  proof (cases "a = x")
    case True
    then show ?thesis
      using reprocessItem_item(1) [OF x] by simp
  next
    case False
    then have "a \<in> set xs" using snoc.prems by simp
    from snoc.IH [OF _ this] snoc.prems
    have "item_status (itemHeap ?u ! a) = StatusQueued
       \<and> resultUrl (itemHeap ?u ! a) = None \<and> resultBlob (itemHeap ?u ! a) = None"
      by simp
    then show ?thesis
      using reprocessItem_item(2) [OF x False] by simp
  qed
qed

lemma launchWorkers_keeps_workers:
  "take (length (workers s)) (workers (launchWorkers bs s)) = workers s"
proof -
  let ?r = "length (cursors s)"
  let ?s0 = "s\<lparr>cursors := cursors s @ [0]\<rparr>"
  obtain pc1 s1 where l1: "workerLoop (fst bs) ?r ?s0 = (pc1, s1)"
    by (cases "workerLoop (fst bs) ?r ?s0")
  let ?s2 = "s1\<lparr>workers := workers s1 @ [(?r, pc1)]\<rparr>"
  obtain pc2 s3 where l2: "workerLoop (snd bs) ?r ?s2 = (pc2, s3)"
    by (cases "workerLoop (snd bs) ?r ?s2")
  have "launchWorkers bs s = s3\<lparr>workers := workers s3 @ [(?r, pc2)]\<rparr>"
    using l1 l2 by (simp add: launchWorkers_def Let_def)
  then show ?thesis
    using workerLoop_keeps_workers [OF l1] workerLoop_keeps_workers [OF l2] by simp
qed

text \<open>
  C10, as amended. In every state the page can reach, with workers in flight or not: a
  reprocess of a batch that is not empty resets the counters and every item of the batch
  (queued, output URL revoked and cleared) and only then launches the new workers; an
  admitted batch of files resets the counters and makes a batch of fresh items. Either
  way the workers already there are left as they are, suspended where they were: none is
  cancelled and nothing tells them from the new ones. And a suspended worker of any
  launch, when its export settles, marks the item it holds as completed, stores the
  output and raises \<^verbatim>\<open>processedCount\<close>.
\<close>

theorem reset_before_launch_but_stale_workers_write:
  assumes reach: "run es0 pageLoaded = Some s"
  shows "(batchItems s \<noteq> [] \<longrightarrow>
            step (EvReprocess True bs) s = Some (launchWorkers bs (reprocessReset s))
            \<and> processedCount (reprocessReset s) = 0 \<and> failedCount (reprocessReset s) = 0
            \<and> batchItems (reprocessReset s) = batchItems s
            \<and> list_all (\<lambda>a. item_status (itemHeap (reprocessReset s) ! a) = StatusQueued
                             \<and> resultUrl (itemHeap (reprocessReset s) ! a) = None
                             \<and> resultBlob (itemHeap (reprocessReset s) ! a) = None) (batchItems s)
            \<and> take (length (workers s)) (workers (launchWorkers bs (reprocessReset s))) = workers s)
       \<and> (1 \<le> length (filter isSupportedImageFile files)
            \<and> length (filter isSupportedImageFile files) \<le> 10 \<longrightarrow>
            processedCount (handleFiles files s) = 0 \<and> failedCount (handleFiles files s) = 0
            \<and> list_all (\<lambda>a. length (itemHeap s) \<le> a) (batchItems (handleFiles files s))
            \<and> workers (handleFiles files s) = workers s
            \<and> take (length (workers s))
                 (workers (launchWorkers bs
                    ((handleFiles files s)\<lparr>pendingAlpha := pendingAlpha (handleFiles files s) - 1\<rparr>)))
               = workers s)
       \<and> (\<forall>w r a b. w < length (workers s) \<and> workers s ! w = (r, AwaitEncode a) \<longrightarrow>
            (\<exists>t. step (EvEncoded w (Some b)) s = Some t
               \<and> item_status (itemHeap t ! a) = StatusCompleted
               \<and> resultBlob (itemHeap t ! a) = Some b
               \<and> resultUrl (itemHeap t ! a) = Some (nextUrl s)
               \<and> processedCount t = processedCount s + 1))"
proof (intro conjI impI allI)
  have wf: "wellFormed s" using wf_run [OF wf_pageLoaded reach] .
  {
    assume ne: "batchItems s \<noteq> []"
    show "step (EvReprocess True bs) s = Some (launchWorkers bs (reprocessReset s))"
      using ne by (simp add: reprocessCurrentBatch_def)
    show "processedCount (reprocessReset s) = 0" "failedCount (reprocessReset s) = 0"
      "batchItems (reprocessReset s) = batchItems s"
      by (simp_all add: reprocessReset_frame)
    have v: "\<forall>x \<in> set (batchItems s). x < length (itemHeap (s\<lparr>processedCount := 0, failedCount := 0\<rparr>))"
      using wf by (simp add: wellFormed_alt)
    show "list_all (\<lambda>a. item_status (itemHeap (reprocessReset s) ! a) = StatusQueued
                             \<and> resultUrl (itemHeap (reprocessReset s) ! a) = None
                             \<and> resultBlob (itemHeap (reprocessReset s) ! a) = None) (batchItems s)"
      unfolding list_all_iff reprocessReset_def
      using fold_reprocessItem_item [OF v] by simp
    show "take (length (workers s)) (workers (launchWorkers bs (reprocessReset s))) = workers s"
      using launchWorkers_keeps_workers [of "reprocessReset s" bs]
      by (simp add: reprocessReset_frame)
  }
  {
    assume n0: "1 \<le> length (filter isSupportedImageFile files)
            \<and> length (filter isSupportedImageFile files) \<le> 10"
    let ?only = "filter isSupportedImageFile files"
    let ?a = "handleFiles files s"
    have ne: "?only \<noteq> []" "\<not> 10 < length ?only" using n0 by auto
    show "processedCount ?a = 0" "failedCount ?a = 0" "workers ?a = workers s"
      using ne by (simp_all add: handleFiles_def Let_def setStatus_def resetUI_frame)
    show "list_all (\<lambda>a. length (itemHeap s) \<le> a) (batchItems ?a)"
      using ne by (simp add: handleFiles_def Let_def setStatus_def resetUI_frame list_all_iff)
    show "take (length (workers s))
            (workers (launchWorkers bs (?a\<lparr>pendingAlpha := pendingAlpha ?a - 1\<rparr>))) = workers s"
      using launchWorkers_keeps_workers [of "?a\<lparr>pendingAlpha := pendingAlpha ?a - 1\<rparr>" bs]
        \<open>workers ?a = workers s\<close> by simp
  }
  {
    fix w r a b
    assume w: "w < length (workers s) \<and> workers s ! w = (r, AwaitEncode a)"
    then have a: "a < length (itemHeap s)" using wf_worker(2) [OF wf, of w r "AwaitEncode a" a] by simp
    show "\<exists>t. step (EvEncoded w (Some b)) s = Some t
               \<and> item_status (itemHeap t ! a) = StatusCompleted
               \<and> resultBlob (itemHeap t ! a) = Some b
               \<and> resultUrl (itemHeap t ! a) = Some (nextUrl s)
               \<and> processedCount t = processedCount s + 1"
      using w a by (simp add: encoded_def sched_defs Let_def split: option.splits)
  }
qed

text \<open>
  The theorem in the state where the first worker of a batch of one file waits for its
  export: a reprocess would leave it waiting, and its export then completes the item.
\<close>

theorem reset_before_launch_but_stale_workers_write_witness:
  "run [EvHandleFiles [\<lparr>file_name = ''a.png'', file_type = ''image/png'', file_size = 1\<rparr>],
        EvAlphaMaps True (True, True),
        EvDecoded 0 (Some \<lparr>img_width = 1, img_height = 1, img_data = [1, 2, 3, 255]\<rparr>) True]
       pageLoaded \<noteq> None
   \<and> workers (the (run
       [EvHandleFiles [\<lparr>file_name = ''a.png'', file_type = ''image/png'', file_size = 1\<rparr>],
        EvAlphaMaps True (True, True),
        EvDecoded 0 (Some \<lparr>img_width = 1, img_height = 1, img_data = [1, 2, 3, 255]\<rparr>) True]
       pageLoaded)) = [(0, AwaitEncode 0), (0, Exited)]
   \<and> take 2 (workers (launchWorkers (True, True) (reprocessReset (the (run
       [EvHandleFiles [\<lparr>file_name = ''a.png'', file_type = ''image/png'', file_size = 1\<rparr>],
        EvAlphaMaps True (True, True),
        EvDecoded 0 (Some \<lparr>img_width = 1, img_height = 1, img_data = [1, 2, 3, 255]\<rparr>) True]
       pageLoaded))))) = [(0, AwaitEncode 0), (0, Exited)]
   \<and> (\<exists>t. step (EvEncoded 0 (Some (Blob [] ''image/png''))) (the (run
       [EvHandleFiles [\<lparr>file_name = ''a.png'', file_type = ''image/png'', file_size = 1\<rparr>],
        EvAlphaMaps True (True, True),
        EvDecoded 0 (Some \<lparr>img_width = 1, img_height = 1, img_data = [1, 2, 3, 255]\<rparr>) True]
       pageLoaded)) = Some t
        \<and> item_status (itemHeap t ! 0) = StatusCompleted \<and> processedCount t = 1)"
proof -
  let ?f = "\<lparr>file_name = ''a.png'', file_type = ''image/png'', file_size = 1\<rparr>"
  let ?img = "\<lparr>img_width = 1, img_height = 1, img_data = [1, 2, 3, 255]\<rparr>"
  let ?A = "[EvHandleFiles [?f], EvAlphaMaps True (True, True), EvDecoded 0 (Some ?img) True]"
  define s where "s = the (run ?A pageLoaded)"
  have h1: "run ?A pageLoaded = Some s" unfolding s_def by code_simp
  have h2: "run ?A pageLoaded \<noteq> None" by code_simp
  have c: "batchItems s \<noteq> []" "workers s = [(0, AwaitEncode 0), (0, Exited)]"
    "processedCount s = 0"
    unfolding s_def by code_simp+
  have l: "length (workers s) = 2" "0 < length (workers s) \<and> workers s ! 0 = (0, AwaitEncode 0)"
    using c(2) by simp_all
  note T = reset_before_launch_but_stale_workers_write [OF h1, of "(True, True)" "[]"]
  from T c(1) have "take (length (workers s)) (workers (launchWorkers (True, True) (reprocessReset s)))
      = workers s"
    by blast
  then have 1: "take 2 (workers (launchWorkers (True, True) (reprocessReset s)))
      = [(0, AwaitEncode 0), (0, Exited)]"
    by (simp add: c(2) numeral_2_eq_2)
  from T l(2) obtain t where "step (EvEncoded 0 (Some (Blob [] ''image/png''))) s = Some t"
    "item_status (itemHeap t ! 0) = StatusCompleted" "processedCount t = processedCount s + 1"
    by blast
  then have 2: "\<exists>t. step (EvEncoded 0 (Some (Blob [] ''image/png''))) s = Some t
        \<and> item_status (itemHeap t ! 0) = StatusCompleted \<and> processedCount t = 1"
    using c(3) by auto
  show ?thesis using h2 c(2) 1 2 unfolding s_def by blast
qed

text \<open>
  C10 as stated fails: the quality is changed while the first worker is decoding the one
  item of the batch. The reprocess resets the counters and the item and its worker takes
  the same item. The worker of the superseded launch then resumes, completes the item
  and raises the counter of the new run, whose own worker is still decoding.
\<close>

theorem stale_worker_writes_counterexample:
  "run [EvHandleFiles [\<lparr>file_name = ''a.png'', file_type = ''image/png'', file_size = 1\<rparr>],
        EvAlphaMaps True (True, True),
        EvReprocess True (True, True),
        EvDecoded 0 (Some \<lparr>img_width = 1, img_height = 1, img_data = [1, 2, 3, 255]\<rparr>) True,
        EvEncoded 0 (Some (Blob [] ''image/png''))]
       pageLoaded \<noteq> None
   \<and> workers (the (run
       [EvHandleFiles [\<lparr>file_name = ''a.png'', file_type = ''image/png'', file_size = 1\<rparr>],
        EvAlphaMaps True (True, True),
        EvReprocess True (True, True)] pageLoaded))
     = [(0, AwaitDecode 0), (0, Exited), (1, AwaitDecode 0), (1, Exited)]
   \<and> processedCount (the (run
       [EvHandleFiles [\<lparr>file_name = ''a.png'', file_type = ''image/png'', file_size = 1\<rparr>],
        EvAlphaMaps True (True, True),
        EvReprocess True (True, True)] pageLoaded)) = 0
   \<and> workers (the (run
       [EvHandleFiles [\<lparr>file_name = ''a.png'', file_type = ''image/png'', file_size = 1\<rparr>],
        EvAlphaMaps True (True, True),
        EvReprocess True (True, True),
        EvDecoded 0 (Some \<lparr>img_width = 1, img_height = 1, img_data = [1, 2, 3, 255]\<rparr>) True,
        EvEncoded 0 (Some (Blob [] ''image/png''))] pageLoaded))
     = [(0, ItemDone), (0, Exited), (1, AwaitDecode 0), (1, Exited)]
   \<and> batchItems (the (run
       [EvHandleFiles [\<lparr>file_name = ''a.png'', file_type = ''image/png'', file_size = 1\<rparr>],
        EvAlphaMaps True (True, True),
        EvReprocess True (True, True),
        EvDecoded 0 (Some \<lparr>img_width = 1, img_height = 1, img_data = [1, 2, 3, 255]\<rparr>) True,
        EvEncoded 0 (Some (Blob [] ''image/png''))] pageLoaded)) = [0]
   \<and> item_status (itemHeap (the (run
       [EvHandleFiles [\<lparr>file_name = ''a.png'', file_type = ''image/png'', file_size = 1\<rparr>],
        EvAlphaMaps True (True, True),
        EvReprocess True (True, True),
        EvDecoded 0 (Some \<lparr>img_width = 1, img_height = 1, img_data = [1, 2, 3, 255]\<rparr>) True,
        EvEncoded 0 (Some (Blob [] ''image/png''))] pageLoaded)) ! 0) = StatusCompleted
   \<and> processedCount (the (run
       [EvHandleFiles [\<lparr>file_name = ''a.png'', file_type = ''image/png'', file_size = 1\<rparr>],
        EvAlphaMaps True (True, True),
        EvReprocess True (True, True),
        EvDecoded 0 (Some \<lparr>img_width = 1, img_height = 1, img_data = [1, 2, 3, 255]\<rparr>) True,
        EvEncoded 0 (Some (Blob [] ''image/png''))] pageLoaded)) = 1"
  by code_simp

end
